theory Spec2Isabelle
  imports Main "HOL-Library.Multiset" "HOL-Library.List_Lexorder" "HOL-Library.Code_Target_Nat"
begin

section \<open>Text and code units\<close>

text \<open>
  The parser works on two physical representations of the file text: \<^verbatim>\<open>std::string\<close>
  (bytes) on the narrow path and \<^verbatim>\<open>std::wstring\<close> (16-bit units) on the wide path.
  A byte of the file buffer is a \<^typ>\<open>char\<close>; the subject of a pattern match is a list of
  code units, each a natural number (below 256 on the narrow path, below 65536 on the
  wide path). \<^verbatim>\<open>generic_string\<close> is the wide string type.
\<close>

type_synonym cunit = nat
type_synonym wstring = "cunit list"

definition str :: "string \<Rightarrow> cunit list" where
  "str s = map of_char s"

section \<open>The pattern language of NWScriptParser.cpp\<close>

text \<open>
  The four patterns of the parser are PCRE2 patterns. Their syntax tree is the datatype
  \<open>rx\<close>; \<open>rx_match\<close> below gives the backtracking semantics of PCRE2 for the
  constructs that occur in them:
  \<^item> \<open>Lit\<close> literal text, \<open>Dot\<close> the pattern \<^verbatim>\<open>.\<close>, \<open>Class\<close> and \<open>NotClass\<close> the
    bracket expressions and the escapes \<^verbatim>\<open>\w \d \s\<close>;
  \<^item> \<open>Bol\<close> the anchor \<^verbatim>\<open>^\<close> under \<^verbatim>\<open>PCRE2_MULTILINE\<close>, \<open>KeepOut\<close> the escape \<^verbatim>\<open>\K\<close>;
  \<^item> \<open>Opt\<close> the greedy \<^verbatim>\<open>?\<close> and \<^verbatim>\<open>{0,1}\<close>, \<open>Star\<close> the greedy \<^verbatim>\<open>*\<close>, \<open>StarLazy\<close> the
    lazy \<^verbatim>\<open>*?\<close>; \<^verbatim>\<open>x+\<close> is \<open>Seq x (Star x)\<close>;
  \<^item> \<open>Atomic\<close> the group \<^verbatim>\<open>(?>...)\<close>; a possessive \<^verbatim>\<open>x*+\<close> is \<open>Atomic (Star x)\<close> and
    \<^verbatim>\<open>x++\<close> is \<open>Atomic (Seq x (Star x))\<close>, as the PCRE2 manual defines them;
  \<^item> \<open>Group\<close> a named capture group, \<open>Call\<close> the subroutine call \<^verbatim>\<open>\g<name>\<close> of a group
    defined in the \<^verbatim>\<open>(?(DEFINE)...)\<close> block;
  \<^item> \<open>Ahead\<close> and \<open>NotAhead\<close> the lookaheads \<^verbatim>\<open>(?=...)\<close> and \<^verbatim>\<open>(?!...)\<close>.
  The unnamed capture groups of the patterns are never read by the parser and are
  plain grouping here.
\<close>

datatype citem = Ch cunit | WordC | DigitC | SpaceC

datatype rx =
    Eps
  | Lit "cunit list"
  | Dot
  | Class "citem list"
  | NotClass "citem list"
  | Bol
  | KeepOut
  | Seq rx rx
  | Alt rx rx
  | Opt rx
  | Star rx
  | StarLazy rx
  | Atomic rx
  | Group string rx
  | Call string
  | Ahead rx
  | NotAhead rx

text \<open>
  A state of the matcher: the code unit before the current position (\<open>None\<close> at the
  start of the subject), the rest of the subject, and the named captures set so far
  (most recent first).
\<close>

record mstate =
  prev :: "cunit option"
  rem :: "cunit list"
  caps :: "(string \<times> cunit list) list"

text \<open>
  Without \<^verbatim>\<open>PCRE2_UCP\<close> the escapes classify by the default tables: only ASCII code
  units are word, digit or space characters, on both character widths.
\<close>

definition is_digit :: "cunit \<Rightarrow> bool" where
  "is_digit c = (48 \<le> c \<and> c \<le> 57)"

definition is_word :: "cunit \<Rightarrow> bool" where
  "is_word c = ((65 \<le> c \<and> c \<le> 90) \<or> (97 \<le> c \<and> c \<le> 122) \<or> is_digit c \<or> c = 95)"

definition is_space :: "cunit \<Rightarrow> bool" where
  "is_space c = (c = 32 \<or> (9 \<le> c \<and> c \<le> 13))"

fun in_item :: "cunit \<Rightarrow> citem \<Rightarrow> bool" where
  "in_item c (Ch k) = (c = k)"
| "in_item c WordC = is_word c"
| "in_item c DigitC = is_digit c"
| "in_item c SpaceC = is_space c"

definition in_items :: "cunit \<Rightarrow> citem list \<Rightarrow> bool" where
  "in_items c its = list_ex (in_item c) its"

definition step1 :: "(cunit \<Rightarrow> bool) \<Rightarrow> mstate \<Rightarrow> mstate list" where
  "step1 ok st = (case rem st of [] \<Rightarrow> []
     | c # cs \<Rightarrow> if ok c then [st\<lparr>prev := Some c, rem := cs\<rparr>] else [])"

fun lit :: "cunit list \<Rightarrow> mstate \<Rightarrow> mstate list" where
  "lit [] st = [st]"
| "lit (k # ks) st = (case rem st of [] \<Rightarrow> []
     | c # cs \<Rightarrow> if c = k then lit ks (st\<lparr>prev := Some c, rem := cs\<rparr>) else [])"

text \<open>
  \<^verbatim>\<open>^\<close> in multiline mode: at the start of the subject, or after a newline that does
  not end the subject. The newline convention is PCRE2's default, a single line feed.
\<close>

definition at_bol :: "mstate \<Rightarrow> bool" where
  "at_bol st = (case prev st of None \<Rightarrow> True | Some p \<Rightarrow> p = 10 \<and> rem st \<noteq> [])"

definition consumed :: "mstate \<Rightarrow> mstate \<Rightarrow> cunit list" where
  "consumed st st' = take (length (rem st) - length (rem st')) (rem st)"

definition fwd :: "mstate \<Rightarrow> mstate \<Rightarrow> bool" where
  "fwd st st' = (length (rem st') \<le> length (rem st))"

definition prog :: "mstate \<Rightarrow> mstate \<Rightarrow> bool" where
  "prog st st' = (length (rem st') < length (rem st))"

text \<open>
  \<open>rx_match ds d r st\<close> lists the states in which \<open>r\<close> can end when started in \<open>st\<close>, in
  the order in which PCRE2's backtracking tries them; the head of the list is the match
  PCRE2 takes. \<open>ds\<close> holds the groups of the \<^verbatim>\<open>(?(DEFINE)...)\<close> block and \<open>d\<close> bounds the
  nesting of subroutine calls (PCRE2 has a depth limit as well; an exhausted depth
  makes the call fail here).
  \<^item> An iteration of a repeated group that matches the empty string ends the loop, as in
    PCRE2.
  \<^item> Captures set inside a subroutine call revert when the call returns.
  \<^item> \<^verbatim>\<open>\K\<close> only moves the reported start of the whole match, which the parser never
    reads (it reads named groups only), so \<open>KeepOut\<close> leaves the state as it is.
  \<^item> The test \<open>fwd\<close> in \<open>Seq\<close> only states that a match never moves backwards
    (lemma \<open>rx_match_suffix\<close> below shows that it never filters anything).
\<close>

function rx_match :: "(string \<times> rx) list \<Rightarrow> nat \<Rightarrow> rx \<Rightarrow> mstate \<Rightarrow> mstate list" where
  "rx_match ds d Eps st = [st]"
| "rx_match ds d (Lit w) st = lit w st"
| "rx_match ds d Dot st = step1 (\<lambda>c. c \<noteq> 10) st"
| "rx_match ds d (Class its) st = step1 (\<lambda>c. in_items c its) st"
| "rx_match ds d (NotClass its) st = step1 (\<lambda>c. \<not> in_items c its) st"
| "rx_match ds d Bol st = (if at_bol st then [st] else [])"
| "rx_match ds d KeepOut st = [st]"
| "rx_match ds d (Seq a b) st = concat (map (rx_match ds d b) (filter (fwd st) (rx_match ds d a st)))"
| "rx_match ds d (Alt a b) st = rx_match ds d a st @ rx_match ds d b st"
| "rx_match ds d (Opt a) st = rx_match ds d a st @ [st]"
| "rx_match ds d (Star a) st =
     concat (map (\<lambda>st'. if prog st st' then rx_match ds d (Star a) st' else [st'])
                 (rx_match ds d a st)) @ [st]"
| "rx_match ds d (StarLazy a) st =
     st # concat (map (\<lambda>st'. if prog st st' then rx_match ds d (StarLazy a) st' else [st'])
                      (rx_match ds d a st))"
| "rx_match ds d (Atomic a) st = take 1 (rx_match ds d a st)"
| "rx_match ds d (Group n a) st =
     map (\<lambda>st'. st'\<lparr>caps := (n, consumed st st') # caps st'\<rparr>) (rx_match ds d a st)"
| "rx_match ds d (Call n) st = (case d of 0 \<Rightarrow> [] | Suc d' \<Rightarrow>
     (case map_of ds n of None \<Rightarrow> []
      | Some body \<Rightarrow> map (\<lambda>st'. st'\<lparr>caps := caps st\<rparr>) (rx_match ds d' body st)))"
| "rx_match ds d (Ahead a) st = (if rx_match ds d a st = [] then [] else [st])"
| "rx_match ds d (NotAhead a) st = (if rx_match ds d a st = [] then [st] else [])"
  by pat_completeness auto
termination
  apply (relation "inv_image (less_than <*lex*> less_than <*lex*> less_than)
     (\<lambda>(ds, d, r, st). (d, length (rem st), size r))")
  apply (auto simp: fwd_def prog_def)
  done

declare rx_match.simps [simp del]

text \<open>
  \<^verbatim>\<open>jpcre2::RegexMatch::match\<close> with the modifier \<^verbatim>\<open>g\<close> and a vector for the named
  substrings: one map of named captures per match. \<^verbatim>\<open>pcre2_match\<close> tries the pattern at
  its start offset and then at every later position, up to and including the end of
  the subject, and the next match is searched from the end of the previous one. After
  an empty match the pattern is tried again at the same position with
  \<^verbatim>\<open>PCRE2_NOTEMPTY_ATSTART | PCRE2_ANCHORED\<close> (the flag \<open>notempty\<close>), and the scan moves on
  by one code unit if that fails; an empty match at the end of the subject ends the
  scan. (jpcre2 takes a match for empty when its text from \<^verbatim>\<open>\K\<close> on is empty. Every
  pattern of the parser has, after its \<^verbatim>\<open>\K\<close> where it has one, a group that takes at
  least one code unit, so none of their matches is empty in either sense.)
\<close>

function matchAll :: "(string \<times> rx) list \<Rightarrow> nat \<Rightarrow> rx \<Rightarrow> bool \<Rightarrow> cunit option \<Rightarrow> cunit list
    \<Rightarrow> (string \<times> cunit list) list list" where
  "matchAll ds d r notempty p s =
     (case (if notempty
            then filter (prog \<lparr>prev = p, rem = s, caps = []\<rparr>)
                        (rx_match ds d r \<lparr>prev = p, rem = s, caps = []\<rparr>)
            else rx_match ds d r \<lparr>prev = p, rem = s, caps = []\<rparr>) of
        [] \<Rightarrow> (case s of [] \<Rightarrow> [] | c # cs \<Rightarrow> matchAll ds d r False (Some c) cs)
      | st # _ \<Rightarrow>
          caps st #
          (if prog \<lparr>prev = p, rem = s, caps = []\<rparr> st
           then matchAll ds d r False (prev st) (rem st)
           else if s = [] then [] else matchAll ds d r True p s))"
  by pat_completeness auto
termination
  apply (relation "inv_image (less_than <*lex*> less_than)
     (\<lambda>(ds, d, r, notempty, p, s). (length s, if notempty then 0 else (1::nat)))")
  apply (auto simp: prog_def filter_eq_Cons_iff split: if_splits)
  done

declare matchAll.simps [simp del]

text \<open>The value of a named group in one match; a group that did not take part is empty.\<close>

definition cap :: "(string \<times> cunit list) list \<Rightarrow> string \<Rightarrow> cunit list" where
  "cap g n = (case map_of g n of None \<Rightarrow> [] | Some v \<Rightarrow> v)"

subsection \<open>The patterns\<close>

definition seqs :: "rx list \<Rightarrow> rx" where
  "seqs rs = foldr Seq rs Eps"

definition rx_plus :: "rx \<Rightarrow> rx" where
  "rx_plus r = Seq r (Star r)"

definition rx_word :: rx where
  "rx_word = Class [WordC]"

definition rx_space :: rx where
  "rx_space = Class [SpaceC]"

text \<open>\<^verbatim>\<open>(?'commentLine'(?>\/\/(?>\n|.*)))\<close>\<close>

definition rx_commentLine :: rx where
  "rx_commentLine = Atomic (Seq (Lit (str ''//'')) (Atomic (Alt (Lit [10]) (Star Dot))))"

text \<open>\<^verbatim>\<open>(?'comment'(?>\/\*(?>.|\n)*?\*\/))\<close>\<close>

definition rx_comment :: rx where
  "rx_comment = Atomic (seqs
     [Lit (str ''/*''), StarLazy (Atomic (Alt Dot (Lit [10]))), Lit (str ''*/'')])"

text \<open>\<^verbatim>\<open>(?'c'(?>\s*+(?>\g<comment>|\g<commentLine>)?\s*+)*+)\<close>\<close>

definition rx_c :: rx where
  "rx_c = Atomic (Star (Atomic (seqs
     [Atomic (Star rx_space),
      Opt (Atomic (Alt (Call ''comment'') (Call ''commentLine''))),
      Atomic (Star rx_space)])))"

text \<open>\<^verbatim>\<open>(?<token>(?>(?!(\/\/|\/\*))("(?:\\.|[^"\\])*"|[\w\d.\-]+)))\<close>
  (34 is the double quote, 92 the backslash, 46 the dot, 45 the hyphen)\<close>

definition rx_token :: rx where
  "rx_token = Atomic (Seq (NotAhead (Alt (Lit (str ''//'')) (Lit (str ''/*''))))
     (Alt (seqs [Lit [34], Star (Alt (Seq (Lit [92]) Dot) (NotClass [Ch 34, Ch 92])), Lit [34]])
          (rx_plus (Class [WordC, DigitC, Ch 46, Ch 45]))))"

text \<open>\<^verbatim>\<open>\g<token>|\g<tokenVector>|\g<object>\<close>\<close>

definition rx_value :: rx where
  "rx_value = Alt (Call ''token'') (Alt (Call ''tokenVector'') (Call ''object''))"

text \<open>
  \<^verbatim>\<open>(?<tokenVector>(?>\[\g<c>(?>(?>\g<token>|\g<tokenVector>|\g<object>)\g<c>,?\g<c>)*?\g<c>\]))\<close>
  and \<^verbatim>\<open>(?<object>...)\<close>, the same between braces (44 is the comma).
\<close>

definition rx_aggregate :: "cunit \<Rightarrow> cunit \<Rightarrow> rx" where
  "rx_aggregate l r = Atomic (seqs
     [Lit [l], Call ''c'',
      StarLazy (Atomic (seqs [Atomic rx_value, Call ''c'', Opt (Lit [44]), Call ''c''])),
      Call ''c'', Lit [r]])"

text \<open>
  \<^verbatim>\<open>(?'param'(?>\g<c>(?>const)?\g<c>(?>(?#paramType)\w+)\g<c>(?>(?#paramName)\w+)\g<c>(?>=\g<c>(?>(?#paramDefaultValue)\g<token>|\g<tokenVector>|\g<object>)){0,1})\g<c>)\<close>
  (a group \<^verbatim>\<open>(?#...)\<close> is a comment; 61 is the equals sign)
\<close>

definition rx_param :: rx where
  "rx_param = Seq (Atomic (seqs
     [Call ''c'', Opt (Atomic (Lit (str ''const''))), Call ''c'',
      Atomic (rx_plus rx_word), Call ''c'', Atomic (rx_plus rx_word), Call ''c'',
      Opt (Atomic (seqs [Lit [61], Call ''c'', Atomic rx_value]))])) (Call ''c'')"

text \<open>\<^verbatim>\<open>BASEREGEX\<close>: the \<^verbatim>\<open>(?(DEFINE)...)\<close> block, which matches nothing by itself.\<close>

definition BASEREGEX :: "(string \<times> rx) list" where
  "BASEREGEX =
    [(''commentLine'', rx_commentLine),
     (''comment'', rx_comment),
     (''c'', rx_c),
     (''token'', rx_token),
     (''tokenVector'', rx_aggregate 91 93),
     (''object'', rx_aggregate 123 125),
     (''param'', rx_param)]"

text \<open>\<^verbatim>\<open>^\s*+\K(?>#define)\s++(?>ENGINE_STRUCTURE_\d++)\s++(?<name>\w++)\<close>\<close>

definition ENGINESTRUCTREGEX :: rx where
  "ENGINESTRUCTREGEX = seqs
    [Bol, Atomic (Star rx_space), KeepOut, Atomic (Lit (str ''#define'')),
     Atomic (rx_plus rx_space),
     Atomic (Seq (Lit (str ''ENGINE_STRUCTURE_'')) (Atomic (rx_plus (Class [DigitC])))),
     Atomic (rx_plus rx_space), Group ''name'' (Atomic (rx_plus rx_word))]"

text \<open>
  \<^verbatim>\<open>^\g<comment>*+\K(?<type>(?>(?!(return|if|else|switch))\w+))\g<c>(?<name>(?>\w+))\g<c>\((?<parametersString>(?>(?>\g<param>,(?=\g<param>)|\g<param>(?=\))))*+)\)\g<c>;\<close>
  (40 and 41 are the parentheses, 59 the semicolon)
\<close>

definition FUNCTIONDECLARATIONREGEX :: rx where
  "FUNCTIONDECLARATIONREGEX = seqs
    [Bol, Atomic (Star (Call ''comment'')), KeepOut,
     Group ''type'' (Atomic (Seq
        (NotAhead (Alt (Lit (str ''return''))
                  (Alt (Lit (str ''if'')) (Alt (Lit (str ''else'')) (Lit (str ''switch''))))))
        (rx_plus rx_word))),
     Call ''c'', Group ''name'' (Atomic (rx_plus rx_word)), Call ''c'', Lit [40],
     Group ''parametersString'' (Atomic (Star (Atomic (Atomic (Alt
        (seqs [Call ''param'', Lit [44], Ahead (Call ''param'')])
        (Seq (Call ''param'') (Ahead (Lit [41])))))))),
     Lit [41], Call ''c'', Lit [59]]"

text \<open>
  \<^verbatim>\<open>\g<c>(?>const){0,1}\g<c>(?<type>(?>\w+))\g<c>(?<name>(?>\w+))\g<c>(?>=\g<c>(?<defaultValue>(?>\g<token>|\g<tokenVector>|\g<object>)))?\g<c>(?!,)?\<close>
\<close>

definition FUNTIONPARAMETERREGEX :: rx where
  "FUNTIONPARAMETERREGEX = seqs
    [Call ''c'', Opt (Atomic (Lit (str ''const''))), Call ''c'',
     Group ''type'' (Atomic (rx_plus rx_word)), Call ''c'',
     Group ''name'' (Atomic (rx_plus rx_word)), Call ''c'',
     Opt (Atomic (seqs [Lit [61], Call ''c'', Group ''defaultValue'' (Atomic rx_value)])),
     Call ''c'', Opt (NotAhead (Lit [44]))]"

text \<open>
  \<^verbatim>\<open>^\g<comment>*+(?>(?>const)?\g<c>^\K(?<type>(?>\w+))\g<c>(?<name>(?>\w+))\g<c>=\g<c>(?<value>\g<token>|\g<tokenVector>|\g<object>))\g<c>;\<close>
\<close>

definition CONSTANTREGEX :: rx where
  "CONSTANTREGEX = seqs
    [Bol, Atomic (Star (Call ''comment'')),
     Atomic (seqs
       [Opt (Atomic (Lit (str ''const''))), Call ''c'', Bol, KeepOut,
        Group ''type'' (Atomic (rx_plus rx_word)), Call ''c'',
        Group ''name'' (Atomic (rx_plus rx_word)), Call ''c'',
        Lit [61], Call ''c'', Group ''value'' rx_value]),
     Call ''c'', Lit [59]]"

section \<open>The parse results\<close>

text \<open>
  The structs of NWScriptParser.h, with the fields the parser writes. A parameter's
  type and name are \<^verbatim>\<open>sType\<close> and \<^verbatim>\<open>sName\<close> in the source too; they carry the prefix
  \<open>sParam\<close> here because a member has fields of the same names.
\<close>

datatype MemberID = EngineStruct | Function | Constant

record ScriptParamMember =
  sParamType :: wstring
  sParamName :: wstring
  sDefaultValue :: wstring

record ScriptMember =
  mID :: MemberID
  sType :: wstring
  sName :: wstring
  sValue :: wstring
  sParams :: "ScriptParamMember list"

record ScriptParseResults =
  EngineStructuresCount :: nat
  FunctionsCount :: nat
  ConstantsCount :: nat
  Members :: "ScriptMember list"

section \<open>What the parser takes from its environment\<close>

text \<open>
  The verdict of \<^verbatim>\<open>Utf8_16_Read::determineEncoding\<close>. The source holds it in an
  \<^verbatim>\<open>int\<close> and compares it with seven named values; \<open>uniOther\<close> is any other value.
\<close>

datatype UniMode =
    uni8Bit | uni7Bit | uniCookie
  | uni16BE | uni16LE | uni16BE_NoBOM | uni16LE_NoBOM
  | uniOther int

text \<open>
  The operating system, the library functions and the helpers of other files that
  \<^verbatim>\<open>ParseFile\<close> calls:
  \<^item> \<open>ResolveLinkFile\<close>: the target of a shortcut file, or the path itself;
  \<^item> \<open>GetFullPathName\<close>: the return value and the contents of the output buffer;
  \<^item> \<open>GetLongPathName\<close>: the contents of the buffer after the call;
  \<^item> \<open>readFile\<close>: the bytes of a file, \<open>None\<close> when the stream cannot be opened;
  \<^item> \<open>determineEncoding\<close>: the verdict on the sampled prefix of the buffer;
  \<^item> \<open>str2wstr\<close>: the conversion of a narrow string to a wide string;
  \<^item> \<open>std_sort\<close>: \<^verbatim>\<open>std::sort\<close> with a comparator;
  \<^item> \<open>match_depth\<close>: the depth to which the pattern engine nests subroutine calls.
\<close>

record platform =
  ResolveLinkFile :: "wstring \<Rightarrow> wstring"
  GetFullPathName :: "wstring \<Rightarrow> nat \<times> wstring"
  GetLongPathName :: "wstring \<Rightarrow> wstring"
  readFile :: "wstring \<Rightarrow> string option"
  determineEncoding :: "string \<Rightarrow> UniMode"
  str2wstr :: "cunit list \<Rightarrow> wstring"
  std_sort :: "(ScriptMember \<Rightarrow> ScriptMember \<Rightarrow> bool) \<Rightarrow> ScriptMember list \<Rightarrow> ScriptMember list"
  match_depth :: nat

text \<open>
  What the C++ standard promises of \<^verbatim>\<open>std::sort\<close>: the result is a permutation of the
  range in which no element is less than an earlier one. The order of equivalent
  elements is not promised.
\<close>

definition std_sort_contract ::
    "(('a \<Rightarrow> 'a \<Rightarrow> bool) \<Rightarrow> 'a list \<Rightarrow> 'a list) \<Rightarrow> ('a \<Rightarrow> 'a \<Rightarrow> bool) \<Rightarrow> bool" where
  "std_sort_contract srt lt =
     (\<forall>xs. mset (srt lt xs) = mset xs \<and> sorted_wrt (\<lambda>a b. \<not> lt b a) (srt lt xs))"

section \<open>NWScriptParser\<close>

definition MAX_PATH :: nat where
  "MAX_PATH = 260"

definition blockSize :: nat where
  "blockSize = 128 * 1024 + 4"

text \<open>A default-constructed \<^verbatim>\<open>ScriptMember\<close>: the caller sets the fields it has.\<close>

definition newMember :: "MemberID \<Rightarrow> ScriptMember" where
  "newMember k = \<lparr>mID = k, sType = [], sName = [], sValue = [], sParams = []\<rparr>"

text \<open>\<^verbatim>\<open>FileToBuffer\<close>: the buffer stays as it was (empty) when the stream does not open.\<close>

definition FileToBuffer :: "platform \<Rightarrow> wstring \<Rightarrow> bool \<times> string" where
  "FileToBuffer P fileName =
     (case readFile P fileName of None \<Rightarrow> (False, []) | Some bytes \<Rightarrow> (True, bytes))"

text \<open>
  The two functions \<^verbatim>\<open>CreateNWScriptStructureA\<close> and \<^verbatim>\<open>CreateNWScriptStructureW\<close> have
  the same body, statement by statement; they differ in the subject (bytes, or 16-bit
  units) and in the conversion of a capture to \<^verbatim>\<open>generic_string\<close> (\<^verbatim>\<open>str2wstr\<close>, or
  none). \<open>CreateNWScriptStructure\<close> is that body: three passes, each setting its counter
  to the number of matches and appending one member per match.
\<close>

definition paramMembers :: "(cunit list \<Rightarrow> wstring) \<Rightarrow> nat \<Rightarrow> cunit list \<Rightarrow> ScriptParamMember list" where
  "paramMembers conv d parametersString =
     map (\<lambda>g. \<lparr>sParamType = conv (cap g ''type''), sParamName = conv (cap g ''name''),
               sDefaultValue = conv (cap g ''defaultValue'')\<rparr>)
         (matchAll BASEREGEX d FUNTIONPARAMETERREGEX False None parametersString)"

definition engineStructMembers :: "(cunit list \<Rightarrow> wstring) \<Rightarrow> nat \<Rightarrow> cunit list \<Rightarrow> ScriptMember list" where
  "engineStructMembers conv d subject =
     map (\<lambda>g. (newMember EngineStruct)\<lparr>sName := conv (cap g ''name'')\<rparr>)
         (matchAll [] d ENGINESTRUCTREGEX False None subject)"

definition functionMembers :: "(cunit list \<Rightarrow> wstring) \<Rightarrow> nat \<Rightarrow> cunit list \<Rightarrow> ScriptMember list" where
  "functionMembers conv d subject =
     map (\<lambda>g. (newMember Function)\<lparr>sType := conv (cap g ''type''), sName := conv (cap g ''name''),
               sParams := paramMembers conv d (cap g ''parametersString'')\<rparr>)
         (matchAll BASEREGEX d FUNCTIONDECLARATIONREGEX False None subject)"

definition constantMembers :: "(cunit list \<Rightarrow> wstring) \<Rightarrow> nat \<Rightarrow> cunit list \<Rightarrow> ScriptMember list" where
  "constantMembers conv d subject =
     map (\<lambda>g. (newMember Constant)\<lparr>sType := conv (cap g ''type''), sName := conv (cap g ''name''),
               sValue := conv (cap g ''value'')\<rparr>)
         (matchAll BASEREGEX d CONSTANTREGEX False None subject)"

definition CreateNWScriptStructure ::
    "(cunit list \<Rightarrow> wstring) \<Rightarrow> nat \<Rightarrow> cunit list \<Rightarrow> ScriptParseResults \<Rightarrow> ScriptParseResults" where
  "CreateNWScriptStructure conv d subject outParseResults =
     (let es = engineStructMembers conv d subject;
          r1 = outParseResults\<lparr>EngineStructuresCount := length es,
                                Members := Members outParseResults @ es\<rparr>;
          fs = functionMembers conv d subject;
          r2 = r1\<lparr>FunctionsCount := length fs, Members := Members r1 @ fs\<rparr>;
          cs = constantMembers conv d subject
      in r2\<lparr>ConstantsCount := length cs, Members := Members r2 @ cs\<rparr>)"

definition CreateNWScriptStructureA :: "platform \<Rightarrow> string \<Rightarrow> ScriptParseResults \<Rightarrow> ScriptParseResults" where
  "CreateNWScriptStructureA P sFileContents outParseResults =
     CreateNWScriptStructure (str2wstr P) (match_depth P) (map of_char sFileContents) outParseResults"

text \<open>
  The wide path reads the buffer as \<^verbatim>\<open>size / 2\<close> units of \<^verbatim>\<open>wchar_t\<close>, low byte first,
  without re-encoding; a trailing odd byte is left out.
\<close>

fun wide_units :: "string \<Rightarrow> cunit list" where
  "wide_units (lo # hi # bs) = (of_char lo + 256 * of_char hi) # wide_units bs"
| "wide_units bs = []"

definition CreateNWScriptStructureW :: "platform \<Rightarrow> string \<Rightarrow> ScriptParseResults \<Rightarrow> ScriptParseResults" where
  "CreateNWScriptStructureW P sFileContents outParseResults =
     CreateNWScriptStructure (\<lambda>w. w) (match_depth P) (wide_units sFileContents) outParseResults"

text \<open>The comparator of the final sort: \<^verbatim>\<open>a.sName < b.sName\<close> on wide strings.\<close>

definition byName :: "ScriptMember \<Rightarrow> ScriptMember \<Rightarrow> bool" where
  "byName a b = (sName a < sName b)"

text \<open>
  The first block of \<^verbatim>\<open>ParseFile\<close>: the name of the file that is read, \<open>None\<close> where
  \<^verbatim>\<open>ParseFile\<close> returns \<^verbatim>\<open>false\<close> before reading. (126 is the tilde.)
\<close>

definition targetFile :: "platform \<Rightarrow> wstring \<Rightarrow> wstring option" where
  "targetFile P sFileName =
     (if length sFileName \<ge> MAX_PATH - 1 then None
      else
        let targetFileName = ResolveLinkFile P sFileName;
            (getFullPathNameResult, longFileName) = GetFullPathName P targetFileName
        in if getFullPathNameResult = 0 then None
           else if getFullPathNameResult > MAX_PATH then None
           else if 126 \<in> set longFileName then Some (GetLongPathName P longFileName)
           else Some longFileName)"

text \<open>
  \<^verbatim>\<open>ParseFile\<close> returns its \<^verbatim>\<open>bool\<close> and the state of \<^verbatim>\<open>outParseResults\<close> after the call.
  The result of \<^verbatim>\<open>FileToBuffer\<close> is stored in \<^verbatim>\<open>success\<close> and not read again.
\<close>

definition ParseFile :: "platform \<Rightarrow> wstring \<Rightarrow> ScriptParseResults \<Rightarrow> bool \<times> ScriptParseResults" where
  "ParseFile P sFileName outParseResults =
     (case targetFile P sFileName of
        None \<Rightarrow> (False, outParseResults)
      | Some targetFileName \<Rightarrow>
          let (success, sFileContents) = FileToBuffer P targetFileName;
              encoding = determineEncoding P (take blockSize sFileContents);
              r = (if encoding = uni8Bit \<or> encoding = uni7Bit \<or> encoding = uniCookie
                   then CreateNWScriptStructureA P sFileContents outParseResults
                   else if encoding = uni16BE \<or> encoding = uni16LE
                           \<or> encoding = uni16BE_NoBOM \<or> encoding = uni16LE_NoBOM
                   then CreateNWScriptStructureW P sFileContents outParseResults
                   else outParseResults)
          in (True, r\<lparr>Members := std_sort P byName (Members r)\<rparr>))"

section \<open>Notions used in the statements\<close>

definition isNarrow :: "UniMode \<Rightarrow> bool" where
  "isNarrow e = (e = uni8Bit \<or> e = uni7Bit \<or> e = uniCookie)"

definition isWide :: "UniMode \<Rightarrow> bool" where
  "isWide e = (e = uni16BE \<or> e = uni16LE \<or> e = uni16BE_NoBOM \<or> e = uni16LE_NoBOM)"

text \<open>The buffer \<^verbatim>\<open>ParseFile\<close> works on, and the verdict on it.\<close>

definition fileBuffer :: "platform \<Rightarrow> wstring \<Rightarrow> string option" where
  "fileBuffer P sFileName = map_option (\<lambda>t. snd (FileToBuffer P t)) (targetFile P sFileName)"

definition verdict :: "platform \<Rightarrow> string \<Rightarrow> UniMode" where
  "verdict P buf = determineEncoding P (take blockSize buf)"

text \<open>The records one call discovers, in the order of discovery, by pass.\<close>

definition discoveredBy :: "platform \<Rightarrow> UniMode \<Rightarrow> string \<Rightarrow> MemberID \<Rightarrow> ScriptMember list" where
  "discoveredBy P e buf k =
     (let pass = (case k of EngineStruct \<Rightarrow> engineStructMembers
                   | Function \<Rightarrow> functionMembers | Constant \<Rightarrow> constantMembers)
      in if isNarrow e then pass (str2wstr P) (match_depth P) (map of_char buf)
         else if isWide e then pass (\<lambda>w. w) (match_depth P) (wide_units buf)
         else [])"

definition discovered :: "platform \<Rightarrow> UniMode \<Rightarrow> string \<Rightarrow> ScriptMember list" where
  "discovered P e buf =
     discoveredBy P e buf EngineStruct @ discoveredBy P e buf Function @ discoveredBy P e buf Constant"

definition ofKind :: "MemberID \<Rightarrow> ScriptMember list \<Rightarrow> ScriptMember list" where
  "ofKind k ms = filter (\<lambda>x. mID x = k) ms"

definition counter :: "MemberID \<Rightarrow> ScriptParseResults \<Rightarrow> nat" where
  "counter k r = (case k of EngineStruct \<Rightarrow> EngineStructuresCount r
                  | Function \<Rightarrow> FunctionsCount r | Constant \<Rightarrow> ConstantsCount r)"

section \<open>Example environments\<close>

text \<open>
  Two sorting functions that keep the contract of \<^verbatim>\<open>std::sort\<close>: insertion from the
  right that puts an element before its equivalents (so equivalent elements keep
  their order), and one that puts it after them (so they end up reversed).
\<close>

fun insert_before :: "('a \<Rightarrow> 'a \<Rightarrow> bool) \<Rightarrow> 'a \<Rightarrow> 'a list \<Rightarrow> 'a list" where
  "insert_before lt x [] = [x]"
| "insert_before lt x (y # ys) = (if lt y x then y # insert_before lt x ys else x # y # ys)"

definition keeping_sort :: "('a \<Rightarrow> 'a \<Rightarrow> bool) \<Rightarrow> 'a list \<Rightarrow> 'a list" where
  "keeping_sort lt xs = foldr (insert_before lt) xs []"

fun insert_after :: "('a \<Rightarrow> 'a \<Rightarrow> bool) \<Rightarrow> 'a \<Rightarrow> 'a list \<Rightarrow> 'a list" where
  "insert_after lt x [] = [x]"
| "insert_after lt x (y # ys) = (if lt x y then x # y # ys else y # insert_after lt x ys)"

definition reversing_sort :: "('a \<Rightarrow> 'a \<Rightarrow> bool) \<Rightarrow> 'a list \<Rightarrow> 'a list" where
  "reversing_sort lt xs = foldr (insert_after lt) xs []"

text \<open>
  A stand-in for the encoding detector of Utf8_16.cpp: it knows the two UTF-16
  byte-order marks and takes every other buffer for 8-bit text.
\<close>

fun bomEncoding :: "string \<Rightarrow> UniMode" where
  "bomEncoding (a # b # bs) =
     (if a = CHR 0xFF \<and> b = CHR 0xFE then uni16LE
      else if a = CHR 0xFE \<and> b = CHR 0xFF then uni16BE else uni8Bit)"
| "bomEncoding bs = uni8Bit"

text \<open>
  An environment with one file: paths are already full paths, narrow strings widen
  unit by unit, and subroutine calls nest eight deep.
\<close>

definition oneFile :: "wstring \<Rightarrow> string \<Rightarrow> wstring \<Rightarrow> string option" where
  "oneFile name bytes p = (if p = name then Some bytes else None)"

definition examplePlatform ::
    "(wstring \<Rightarrow> string option) \<Rightarrow> (string \<Rightarrow> UniMode)
      \<Rightarrow> ((ScriptMember \<Rightarrow> ScriptMember \<Rightarrow> bool) \<Rightarrow> ScriptMember list \<Rightarrow> ScriptMember list)
      \<Rightarrow> platform" where
  "examplePlatform files detect srt =
     \<lparr>ResolveLinkFile = (\<lambda>p. p), GetFullPathName = (\<lambda>p. (length p, p)),
      GetLongPathName = (\<lambda>p. p), readFile = files, determineEncoding = detect,
      str2wstr = (\<lambda>s. s), std_sort = srt, match_depth = 8\<rparr>"

definition utf16le :: "string \<Rightarrow> string" where
  "utf16le s = CHR 0xFF # CHR 0xFE # concat (map (\<lambda>c. [c, CHR 0x00]) s)"

definition freshResults :: ScriptParseResults where
  "freshResults = \<lparr>EngineStructuresCount = 0, FunctionsCount = 0, ConstantsCount = 0, Members = []\<rparr>"

definition effectMember :: ScriptMember where
  "effectMember = (newMember EngineStruct)\<lparr>sName := str ''effect''\<rparr>"

text \<open>What a call on the file \<open>structLine\<close> leaves in a fresh result.\<close>

definition earlierResults :: ScriptParseResults where
  "earlierResults =
     \<lparr>EngineStructuresCount = 1, FunctionsCount = 0, ConstantsCount = 0, Members = [effectMember]\<rparr>"

definition script_nss :: wstring where
  "script_nss = str ''script.nss''"

definition structLine :: string where
  "structLine = ''#define ENGINE_STRUCTURE_0 effect''"

definition shadowText :: string where
  "shadowText = ''int g();\<newline>int f();\<newline>int f = 1;''"

section \<open>Declarations as text\<close>

text \<open>
  The statements about what the patterns find are made for texts that are built from
  an abstract syntax, so that "every parameter" and "every nested literal" range over a
  datatype. Nothing in this section models the parser; it describes its inputs.
\<close>

subsection \<open>Positions in a text\<close>

text \<open>
  \<open>after p w\<close> is the code unit before the position reached from \<open>p\<close> by reading \<open>w\<close>;
  \<open>stops P s\<close> says that \<open>s\<close> does not begin with a unit satisfying \<open>P\<close>; \<open>starts_with k s\<close>
  that \<open>s\<close> begins with \<open>k\<close>. \<open>St\<close> abbreviates a matcher state.
\<close>

fun after :: "cunit option \<Rightarrow> cunit list \<Rightarrow> cunit option" where
  "after p [] = p"
| "after p (c # cs) = after (Some c) cs"

definition stops :: "(cunit \<Rightarrow> bool) \<Rightarrow> cunit list \<Rightarrow> bool" where
  "stops P s = (case s of [] \<Rightarrow> True | c # cs \<Rightarrow> \<not> P c)"

definition starts_with :: "cunit list \<Rightarrow> cunit list \<Rightarrow> bool" where
  "starts_with k s = (take (length k) s = k)"

abbreviation St :: "cunit option \<Rightarrow> cunit list \<Rightarrow> (string \<times> cunit list) list \<Rightarrow> mstate" where
  "St p s g \<equiv> \<lparr>prev = p, rem = s, caps = g\<rparr>"

subsection \<open>Values\<close>

text \<open>
  A literal value: a bare token (a run of word characters, digits, dots and hyphens),
  a string in double quotes, a vector in brackets or an object in braces, the last two
  holding values again. The characters of a string are written plainly (no quote, no
  backslash, no line feed inside). \<open>render ws\<close> writes a value with a comma and the
  white space \<open>ws\<close> between the items of a vector or an object. \<open>vdepth\<close> is the number
  of subroutine calls the patterns nest to read a value.
\<close>

definition is_tokch :: "cunit \<Rightarrow> bool" where
  "is_tokch c = (is_word c \<or> is_digit c \<or> c = 46 \<or> c = 45)"

definition is_strch :: "cunit \<Rightarrow> bool" where
  "is_strch c = (c \<noteq> 34 \<and> c \<noteq> 92 \<and> c \<noteq> 10)"

datatype pvalue = Tok "cunit list" | Str "cunit list" | Vec "pvalue list" | Obj "pvalue list"

fun join :: "'a list \<Rightarrow> 'a list list \<Rightarrow> 'a list" where
  "join sep [] = []"
| "join sep [x] = x"
| "join sep (x # y # ys) = x @ sep @ join sep (y # ys)"

fun render :: "cunit list \<Rightarrow> pvalue \<Rightarrow> cunit list" where
  "render ws (Tok t) = t"
| "render ws (Str b) = 34 # b @ [34]"
| "render ws (Vec vs) = 91 # join (44 # ws) (map (render ws) vs) @ [93]"
| "render ws (Obj vs) = 123 # join (44 # ws) (map (render ws) vs) @ [125]"

fun wf_value :: "pvalue \<Rightarrow> bool" where
  "wf_value (Tok t) = (t \<noteq> [] \<and> list_all is_tokch t)"
| "wf_value (Str b) = list_all is_strch b"
| "wf_value (Vec vs) = list_all wf_value vs"
| "wf_value (Obj vs) = list_all wf_value vs"

fun vdepth :: "pvalue \<Rightarrow> nat" where
  "vdepth (Tok t) = 1"
| "vdepth (Str b) = 1"
| "vdepth (Vec vs) = Suc (foldr max (map vdepth vs) 1)"
| "vdepth (Obj vs) = Suc (foldr max (map vdepth vs) 1)"

definition value_start :: "cunit \<Rightarrow> bool" where
  "value_start c = (is_tokch c \<or> c = 34 \<or> c = 91 \<or> c = 123)"

subsection \<open>Parameters\<close>

text \<open>
  A parameter has a type, a name and possibly a default value. It is written
  \<^verbatim>\<open>type sp name\<close> or \<^verbatim>\<open>type sp name ws = ws value\<close>, and the parameters of a list are
  separated by a comma and \<open>ws\<close>; \<open>sp\<close> is white space that is not empty, \<open>ws\<close> any white
  space. The type and the name are identifiers; the type does not begin with
  \<^verbatim>\<open>const\<close>, which the patterns would take for the qualifier.
\<close>

datatype pdecl = Param (ptype: "cunit list") (pname: "cunit list") (pdefault: "pvalue option")

fun render_default :: "cunit list \<Rightarrow> pvalue option \<Rightarrow> cunit list" where
  "render_default ws None = []"
| "render_default ws (Some v) = ws @ 61 # ws @ render ws v"

definition render_param :: "cunit list \<Rightarrow> cunit list \<Rightarrow> pdecl \<Rightarrow> cunit list" where
  "render_param sp ws q = ptype q @ sp @ pname q @ render_default ws (pdefault q)"

definition render_params :: "cunit list \<Rightarrow> cunit list \<Rightarrow> pdecl list \<Rightarrow> cunit list" where
  "render_params sp ws qs = join (44 # ws) (map (render_param sp ws) qs)"

definition is_ident :: "cunit list \<Rightarrow> bool" where
  "is_ident w = (w \<noteq> [] \<and> list_all is_word w)"

definition wf_param :: "pdecl \<Rightarrow> bool" where
  "wf_param q = (is_ident (ptype q) \<and> \<not> starts_with (str ''const'') (ptype q) \<and> is_ident (pname q)
     \<and> (case pdefault q of None \<Rightarrow> True | Some v \<Rightarrow> wf_value v))"

definition pdepth :: "pdecl \<Rightarrow> nat" where
  "pdepth q = (case pdefault q of None \<Rightarrow> 1 | Some v \<Rightarrow> vdepth v)"

text \<open>The captures of the parameter pattern on a parameter, and the record made of them.\<close>

definition param_caps :: "cunit list \<Rightarrow> pdecl \<Rightarrow> (string \<times> cunit list) list" where
  "param_caps ws q =
     (case pdefault q of None \<Rightarrow> [] | Some v \<Rightarrow> [(''defaultValue'', render ws v)])
     @ [(''name'', pname q), (''type'', ptype q)]"

definition param_record :: "(cunit list \<Rightarrow> wstring) \<Rightarrow> cunit list \<Rightarrow> pdecl \<Rightarrow> ScriptParamMember" where
  "param_record conv ws q =
     \<lparr>sParamType = conv (ptype q), sParamName = conv (pname q),
      sDefaultValue = conv (case pdefault q of None \<Rightarrow> [] | Some v \<Rightarrow> render ws v)\<rparr>"

text \<open>What may follow a parameter: nothing that could continue it.\<close>

definition param_follow :: "cunit list \<Rightarrow> bool" where
  "param_follow s = stops (\<lambda>c. is_tokch c \<or> is_space c \<or> c = 47 \<or> c = 61) s"

text \<open>The loop over the parameters inside \<open>FUNCTIONDECLARATIONREGEX\<close>.\<close>

definition rx_paramLoop :: rx where
  "rx_paramLoop = Star (Atomic (Atomic (Alt
        (seqs [Call ''param'', Lit [44], Ahead (Call ''param'')])
        (Seq (Call ''param'') (Ahead (Lit [41]))))))"

subsection \<open>Functions and files\<close>

text \<open>
  The header of a function is \<^verbatim>\<open>type sp name(parameters)\<close>; the type does not begin with
  one of the four words the function pattern refuses. A file is a list of items, each
  beginning on a line of its own:
  \<^item> a prototype: a header and a semicolon;
  \<^item> a definition: a header, white space \<open>gap\<close> and a body in braces, on one line or on
    several; a line that begins inside a definition begins with a unit that is
    neither a word character nor a slash (47): it is indented, or it begins with a
    brace;
  \<^item> a constant: \<^verbatim>\<open>type sp name ws = ws value;\<close>
  \<^item> any other line that is empty, or begins with \<^verbatim>\<open>//\<close>, or begins with a unit that is
    neither a word character nor a slash: a line comment, a \<^verbatim>\<open>#define\<close>, an indented
    line.
\<close>

datatype fdecl = FDecl (ftype: "cunit list") (fname: "cunit list") (fparams: "pdecl list")

definition render_header :: "cunit list \<Rightarrow> cunit list \<Rightarrow> fdecl \<Rightarrow> cunit list" where
  "render_header sp ws f = ftype f @ sp @ fname f @ 40 # render_params sp ws (fparams f) @ [41]"

definition reserved_heads :: "cunit list list" where
  "reserved_heads = [str ''return'', str ''if'', str ''else'', str ''switch'']"

definition wf_fdecl :: "fdecl \<Rightarrow> bool" where
  "wf_fdecl f = (is_ident (ftype f) \<and> list_all (\<lambda>k. \<not> starts_with k (ftype f)) reserved_heads
     \<and> is_ident (fname f) \<and> list_all wf_param (fparams f))"

definition fdecl_caps :: "cunit list \<Rightarrow> cunit list \<Rightarrow> fdecl \<Rightarrow> (string \<times> cunit list) list" where
  "fdecl_caps sp ws f =
     [(''parametersString'', render_params sp ws (fparams f)), (''name'', fname f), (''type'', ftype f)]"

definition opens_line :: "cunit \<Rightarrow> bool" where
  "opens_line c = (is_word c \<or> c = 47)"

fun indented :: "cunit list \<Rightarrow> bool" where
  "indented (a # b # cs) = ((if a = 10 then \<not> opens_line b else True) \<and> indented (b # cs))"
| "indented cs = True"

definition quiet :: "cunit list \<Rightarrow> bool" where
  "quiet l = (case l of [] \<Rightarrow> True
     | c # cs \<Rightarrow> if opens_line c then starts_with [47, 47] l else True)"

datatype item =
    Prototype fdecl
  | Definition fdecl "cunit list" "cunit list"
  | ConstantDecl "cunit list" "cunit list" pvalue
  | Other "cunit list"

fun render_item :: "cunit list \<Rightarrow> cunit list \<Rightarrow> item \<Rightarrow> cunit list" where
  "render_item sp ws (Prototype f) = render_header sp ws f @ [59]"
| "render_item sp ws (Definition f gap body) = render_header sp ws f @ gap @ 123 # body @ [125]"
| "render_item sp ws (ConstantDecl t n v) = t @ sp @ n @ ws @ 61 # ws @ render ws v @ [59]"
| "render_item sp ws (Other l) = l"

definition render_file :: "cunit list \<Rightarrow> cunit list \<Rightarrow> item list \<Rightarrow> cunit list" where
  "render_file sp ws its = concat (map (\<lambda>i. render_item sp ws i @ [10]) its)"

fun item_params :: "item \<Rightarrow> pdecl list" where
  "item_params (Prototype f) = fparams f"
| "item_params (Definition f gap body) = fparams f"
| "item_params (ConstantDecl t n v) = []"
| "item_params (Other l) = []"

fun wf_item :: "item \<Rightarrow> bool" where
  "wf_item (Prototype f) = wf_fdecl f"
| "wf_item (Definition f gap body) =
     (wf_fdecl f \<and> list_all is_space gap \<and> indented (gap @ 123 # body @ [125]))"
| "wf_item (ConstantDecl t n v) = (is_ident t \<and> is_ident n \<and> wf_value v)"
| "wf_item (Other l) = (10 \<notin> set l \<and> quiet l)"

fun prototypes :: "item list \<Rightarrow> fdecl list" where
  "prototypes [] = []"
| "prototypes (Prototype f # its) = f # prototypes its"
| "prototypes (Definition f gap body # its) = prototypes its"
| "prototypes (ConstantDecl t n v # its) = prototypes its"
| "prototypes (Other l # its) = prototypes its"

text \<open>The function record of a prototype.\<close>

definition function_record :: "(cunit list \<Rightarrow> wstring) \<Rightarrow> cunit list \<Rightarrow> fdecl \<Rightarrow> ScriptMember" where
  "function_record conv ws f =
     \<lparr>mID = Function, sType = conv (ftype f), sName = conv (fname f), sValue = [],
      sParams = map (param_record conv ws) (fparams f)\<rparr>"

text \<open>
  An example file: a line comment, a constant, an empty line, a prototype with a
  nested default value and a string that holds a comma and a bracket, and a
  definition.
\<close>

definition demoItems :: "item list" where
  "demoItems =
     [Other (str ''// Example declarations''),
      ConstantDecl (str ''int'') (str ''N'') (Tok (str ''3'')),
      Other [],
      Prototype (FDecl (str ''int'') (str ''f'')
        [Param (str ''int'') (str ''a'') None,
         Param (str ''vector'') (str ''v'')
           (Some (Vec [Vec [Tok (str ''1''), Tok (str ''2'')], Vec [Tok (str ''3''), Tok (str ''4'')]])),
         Param (str ''string'') (str ''s'') (Some (Str (str ''x, y]'')))]),
      Definition (FDecl (str ''void'') (str ''g'') []) [10] (str ''\<newline>    return;\<newline>'')]"

definition demoText :: string where
  "demoText =
     ''// Example declarations\<newline>int N = 3;\<newline>\<newline>int f(int a, vector v = [[1, 2], [3, 4]], string s = \"x, y]\");\<newline>void g()\<newline>{\<newline>    return;\<newline>}\<newline>''"

section \<open>The shape of a call\<close>

lemma CreateNWScriptStructure_Members:
  "Members (CreateNWScriptStructure conv d s r) =
     Members r @ engineStructMembers conv d s @ functionMembers conv d s @ constantMembers conv d s"
  by (simp add: CreateNWScriptStructure_def Let_def)

lemma CreateNWScriptStructure_counters:
  "EngineStructuresCount (CreateNWScriptStructure conv d s r) = length (engineStructMembers conv d s)"
  "FunctionsCount (CreateNWScriptStructure conv d s r) = length (functionMembers conv d s)"
  "ConstantsCount (CreateNWScriptStructure conv d s r) = length (constantMembers conv d s)"
  by (simp_all add: CreateNWScriptStructure_def Let_def)

lemma fileBuffer_SomeD:
  assumes "fileBuffer P f = Some buf"
  obtains t ok where "targetFile P f = Some t" and "FileToBuffer P t = (ok, buf)"
  using assms by (auto simp: fileBuffer_def) (metis prod.collapse)

lemma ParseFile_unfold:
  assumes "fileBuffer P f = Some buf"
  shows "ParseFile P f r =
     (True, (let r' = (if isNarrow (verdict P buf) then CreateNWScriptStructureA P buf r
                       else if isWide (verdict P buf) then CreateNWScriptStructureW P buf r else r)
             in r'\<lparr>Members := std_sort P byName (Members r')\<rparr>))"
proof -
  from assms obtain t ok where "targetFile P f = Some t" "FileToBuffer P t = (ok, buf)"
    by (rule fileBuffer_SomeD)
  then show ?thesis
    by (simp add: ParseFile_def Let_def isNarrow_def isWide_def verdict_def)
qed

lemma ParseFile_no_buffer:
  assumes "fileBuffer P f = None"
  shows "ParseFile P f r = (False, r)"
  using assms by (simp add: ParseFile_def fileBuffer_def)

lemma ParseFile_True_buffer:
  assumes "ParseFile P f r = (True, r')"
  obtains buf where "fileBuffer P f = Some buf"
  using assms by (cases "fileBuffer P f") (auto simp: ParseFile_no_buffer)

lemma ParseFile_Members:
  assumes "fileBuffer P f = Some buf"
  shows "Members (snd (ParseFile P f r)) =
           std_sort P byName (Members r @ discovered P (verdict P buf) buf)"
  using assms
  by (simp add: ParseFile_unfold Let_def discovered_def discoveredBy_def
      CreateNWScriptStructureA_def CreateNWScriptStructureW_def CreateNWScriptStructure_Members)

lemma ParseFile_counter:
  assumes "fileBuffer P f = Some buf"
  shows "counter k (snd (ParseFile P f r)) =
           (if isNarrow (verdict P buf) \<or> isWide (verdict P buf)
            then length (discoveredBy P (verdict P buf) buf k) else counter k r)"
  using assms
  by (cases k)
     (simp_all add: ParseFile_unfold Let_def counter_def discoveredBy_def
      CreateNWScriptStructureA_def CreateNWScriptStructureW_def CreateNWScriptStructure_counters)

lemma mID_engineStructMembers: "x \<in> set (engineStructMembers conv d s) \<Longrightarrow> mID x = EngineStruct"
  by (auto simp: engineStructMembers_def newMember_def)

lemma mID_functionMembers: "x \<in> set (functionMembers conv d s) \<Longrightarrow> mID x = Function"
  by (auto simp: functionMembers_def newMember_def)

lemma mID_constantMembers: "x \<in> set (constantMembers conv d s) \<Longrightarrow> mID x = Constant"
  by (auto simp: constantMembers_def newMember_def)

lemma mID_discoveredBy: "x \<in> set (discoveredBy P e buf k) \<Longrightarrow> mID x = k"
  by (cases k)
     (auto simp: discoveredBy_def mID_engineStructMembers mID_functionMembers mID_constantMembers
           split: if_splits)

lemma ofKind_discoveredBy:
  "ofKind k (discoveredBy P e buf k') = (if k = k' then discoveredBy P e buf k' else [])"
  by (auto simp: ofKind_def filter_id_conv filter_empty_conv dest: mID_discoveredBy)

lemma ofKind_append: "ofKind k (xs @ ys) = ofKind k xs @ ofKind k ys"
  by (simp add: ofKind_def)

lemma ofKind_discovered: "ofKind k (discovered P e buf) = discoveredBy P e buf k"
  by (cases k) (simp_all add: discovered_def ofKind_append ofKind_discoveredBy)

lemma length_ofKind_mset: "mset xs = mset ys \<Longrightarrow> length (ofKind k xs) = length (ofKind k ys)"
  unfolding ofKind_def by (metis mset_filter size_mset)

section \<open>Sorting\<close>

lemma byName_not: "(\<not> byName b a) = (sName a \<le> sName b)"
  by (auto simp: byName_def)

lemma contract_mset: "std_sort_contract srt lt \<Longrightarrow> mset (srt lt xs) = mset xs"
  by (simp add: std_sort_contract_def)

lemma contract_sorted:
  "std_sort_contract srt byName \<Longrightarrow> sorted_wrt (\<lambda>a b. sName a \<le> sName b) (srt byName xs)"
  by (simp add: std_sort_contract_def byName_not)

lemma sorted_wrt_adjacent:
  "sorted_wrt (\<lambda>a b. sName a \<le> sName b) ms \<Longrightarrow> Suc i < length ms \<Longrightarrow> sName (ms ! i) \<le> sName (ms ! Suc i)"
  by (simp add: sorted_wrt_iff_nth_less)

lemma sorted_wrt_block:
  assumes "sorted_wrt (\<lambda>a b. sName a \<le> sName b) ms" "i \<le> k" "k \<le> j" "j < length ms"
    "sName (ms ! i) = sName (ms ! j)"
  shows "sName (ms ! k) = sName (ms ! i)"
proof -
  have le: "\<And>a b. a \<le> b \<Longrightarrow> b < length ms \<Longrightarrow> sName (ms ! a) \<le> sName (ms ! b)"
    using assms(1) by (metis le_less order_refl sorted_wrt_iff_nth_less)
  have "sName (ms ! i) \<le> sName (ms ! k)" using le[of i k] assms(2-4) by simp
  moreover have "sName (ms ! k) \<le> sName (ms ! j)" using le[of k j] assms(3,4) by simp
  ultimately show ?thesis using assms(5) by simp
qed

lemma set_insert_before: "set (insert_before lt x ys) = insert x (set ys)"
  by (induction ys) auto

lemma mset_insert_before: "mset (insert_before lt x ys) = add_mset x (mset ys)"
  by (induction ys) auto

lemma mset_keeping_sort: "mset (keeping_sort lt xs) = mset xs"
  by (induction xs) (simp_all add: keeping_sort_def mset_insert_before)

lemma sorted_insert_before:
  "sorted_wrt (\<lambda>a b. sName a \<le> sName b) ys \<Longrightarrow>
   sorted_wrt (\<lambda>a b. sName a \<le> sName b) (insert_before byName x ys)"
  by (induction ys) (auto simp: set_insert_before byName_def)

lemma sorted_keeping_sort: "sorted_wrt (\<lambda>a b. sName a \<le> sName b) (keeping_sort byName xs)"
  by (induction xs) (simp_all add: keeping_sort_def sorted_insert_before)

lemma keeping_sort_contract: "std_sort_contract keeping_sort byName"
  by (simp add: std_sort_contract_def mset_keeping_sort byName_not sorted_keeping_sort)

lemma set_insert_after: "set (insert_after lt x ys) = insert x (set ys)"
  by (induction ys) auto

lemma mset_insert_after: "mset (insert_after lt x ys) = add_mset x (mset ys)"
  by (induction ys) auto

lemma mset_reversing_sort: "mset (reversing_sort lt xs) = mset xs"
  by (induction xs) (simp_all add: reversing_sort_def mset_insert_after)

lemma sorted_insert_after:
  "sorted_wrt (\<lambda>a b. sName a \<le> sName b) ys \<Longrightarrow>
   sorted_wrt (\<lambda>a b. sName a \<le> sName b) (insert_after byName x ys)"
  by (induction ys) (auto simp: set_insert_after byName_def)

lemma sorted_reversing_sort: "sorted_wrt (\<lambda>a b. sName a \<le> sName b) (reversing_sort byName xs)"
  by (induction xs) (simp_all add: reversing_sort_def sorted_insert_after)

lemma reversing_sort_contract: "std_sort_contract reversing_sort byName"
  by (simp add: std_sort_contract_def mset_reversing_sort byName_not sorted_reversing_sort)

section \<open>The passes on the example buffers\<close>

lemma passes_empty:
  "engineStructMembers (\<lambda>s. s) 8 (map of_char []) = []"
  "functionMembers (\<lambda>s. s) 8 (map of_char []) = []"
  "constantMembers (\<lambda>s. s) 8 (map of_char []) = []"
  by code_simp+

lemma passes_structLine:
  "engineStructMembers (\<lambda>s. s) 8 (map of_char structLine) = [(newMember EngineStruct)\<lparr>sName := str ''effect''\<rparr>]"
  "functionMembers (\<lambda>s. s) 8 (map of_char structLine) = []"
  "constantMembers (\<lambda>s. s) 8 (map of_char structLine) = []"
  by code_simp+

lemma passes_structLine_wide:
  "engineStructMembers (\<lambda>s. s) 8 (wide_units (utf16le structLine)) = []"
  "functionMembers (\<lambda>s. s) 8 (wide_units (utf16le structLine)) = []"
  "constantMembers (\<lambda>s. s) 8 (wide_units (utf16le structLine)) = []"
  by code_simp+

lemma passes_shadowText:
  "engineStructMembers (\<lambda>s. s) 8 (map of_char shadowText) = []"
  "functionMembers (\<lambda>s. s) 8 (map of_char shadowText) =
     [(newMember Function)\<lparr>sType := str ''int'', sName := str ''g''\<rparr>,
      (newMember Function)\<lparr>sType := str ''int'', sName := str ''f''\<rparr>]"
  "constantMembers (\<lambda>s. s) 8 (map of_char shadowText) =
     [(newMember Constant)\<lparr>sType := str ''int'', sName := str ''f'', sValue := str ''1''\<rparr>]"
  by code_simp+

section \<open>The example environments\<close>

lemma example_fields [simp]:
  "ResolveLinkFile (examplePlatform files detect srt) = (\<lambda>p. p)"
  "GetFullPathName (examplePlatform files detect srt) = (\<lambda>p. (length p, p))"
  "GetLongPathName (examplePlatform files detect srt) = (\<lambda>p. p)"
  "str2wstr (examplePlatform files detect srt) = (\<lambda>s. s)"
  "match_depth (examplePlatform files detect srt) = 8"
  "std_sort (examplePlatform files detect srt) = srt"
  "readFile (examplePlatform files detect srt) = files"
  "verdict (examplePlatform files detect srt) buf = detect (take blockSize buf)"
  by (simp_all add: examplePlatform_def verdict_def)

lemma example_targetFile [simp]:
  "targetFile (examplePlatform files detect srt) script_nss = Some script_nss"
  by (simp add: targetFile_def script_nss_def str_def MAX_PATH_def)

lemma example_fileBuffer [simp]:
  "fileBuffer (examplePlatform (oneFile script_nss bytes) detect srt) script_nss = Some bytes"
  by (simp add: fileBuffer_def FileToBuffer_def oneFile_def)

lemma example_no_file [simp]:
  "fileBuffer (examplePlatform (\<lambda>p. None) detect srt) script_nss = Some []"
  by (simp add: fileBuffer_def FileToBuffer_def)

lemma take_blockSize_short [simp]: "length buf \<le> 100 \<Longrightarrow> take blockSize buf = buf"
  by (simp add: blockSize_def)

lemma sample_lengths [simp]:
  "length structLine \<le> 100" "length shadowText \<le> 100" "length (utf16le structLine) \<le> 100"
  by (simp_all add: structLine_def shadowText_def utf16le_def)

lemma sample_verdicts [simp]:
  "bomEncoding structLine = uni8Bit" "bomEncoding shadowText = uni8Bit"
  "bomEncoding (utf16le structLine) = uni16LE" "bomEncoding [] = uni8Bit"
  by (simp_all add: structLine_def shadowText_def utf16le_def)

lemma discoveredBy_simps:
  "isNarrow e \<Longrightarrow> discoveredBy P e buf EngineStruct = engineStructMembers (str2wstr P) (match_depth P) (map of_char buf)"
  "isNarrow e \<Longrightarrow> discoveredBy P e buf Function = functionMembers (str2wstr P) (match_depth P) (map of_char buf)"
  "isNarrow e \<Longrightarrow> discoveredBy P e buf Constant = constantMembers (str2wstr P) (match_depth P) (map of_char buf)"
  "\<not> isNarrow e \<Longrightarrow> isWide e \<Longrightarrow> discoveredBy P e buf EngineStruct = engineStructMembers (\<lambda>w. w) (match_depth P) (wide_units buf)"
  "\<not> isNarrow e \<Longrightarrow> isWide e \<Longrightarrow> discoveredBy P e buf Function = functionMembers (\<lambda>w. w) (match_depth P) (wide_units buf)"
  "\<not> isNarrow e \<Longrightarrow> isWide e \<Longrightarrow> discoveredBy P e buf Constant = constantMembers (\<lambda>w. w) (match_depth P) (wide_units buf)"
  "\<not> isNarrow e \<Longrightarrow> \<not> isWide e \<Longrightarrow> discoveredBy P e buf k = []"
  by (simp_all add: discoveredBy_def)

lemma verdict_classes [simp]:
  "isNarrow uni8Bit" "\<not> isNarrow uni16LE" "isWide uni16LE" "\<not> isNarrow (uniOther k)" "\<not> isWide (uniOther k)"
  by (simp_all add: isNarrow_def isWide_def)

lemma ParseFile_eq:
  assumes "fileBuffer P f = Some buf"
  shows "ParseFile P f r = (True, snd (ParseFile P f r))"
  using assms by (simp add: ParseFile_unfold)


section \<open>The final sort\<close>

text \<open>
  C3. For every input buffer, the members of the result that \<^verbatim>\<open>ParseFile\<close> returns are
  sorted ascending by name under the ordinal comparison of wide strings: of any two
  adjacent records the first has the smaller or the same name. (\<^verbatim>\<open>std::sort\<close> is taken
  by its contract.)
\<close>

theorem members_sorted_by_name:
  assumes "std_sort_contract (std_sort P) byName"
    and "ParseFile P sFileName outParseResults = (True, r)"
  shows "sorted_wrt (\<lambda>a b. sName a \<le> sName b) (Members r) \<and>
         (\<forall>i. Suc i < length (Members r) \<longrightarrow> sName (Members r ! i) \<le> sName (Members r ! Suc i))"
proof -
  from assms(2) obtain buf where buf: "fileBuffer P sFileName = Some buf"
    by (rule ParseFile_True_buffer)
  have "Members r = Members (snd (ParseFile P sFileName outParseResults))"
    using assms(2) by simp
  then have "Members r = std_sort P byName (Members outParseResults @ discovered P (verdict P buf) buf)"
    using ParseFile_Members[OF buf] by simp
  then have "sorted_wrt (\<lambda>a b. sName a \<le> sName b) (Members r)"
    using contract_sorted[OF assms(1)] by simp
  then show ?thesis
    by (simp add: sorted_wrt_adjacent)
qed

lemma shadow_discovered:
  "discovered (examplePlatform (oneFile script_nss shadowText) bomEncoding srt) uni8Bit shadowText =
     [(newMember Function)\<lparr>sType := str ''int'', sName := str ''g''\<rparr>,
      (newMember Function)\<lparr>sType := str ''int'', sName := str ''f''\<rparr>,
      (newMember Constant)\<lparr>sType := str ''int'', sName := str ''f'', sValue := str ''1''\<rparr>]"
  using passes_shadowText by (simp add: discovered_def discoveredBy_simps)

lemma shadow_keeping:
  "keeping_sort byName
     [(newMember Function)\<lparr>sType := str ''int'', sName := str ''g''\<rparr>,
      (newMember Function)\<lparr>sType := str ''int'', sName := str ''f''\<rparr>,
      (newMember Constant)\<lparr>sType := str ''int'', sName := str ''f'', sValue := str ''1''\<rparr>] =
     [(newMember Function)\<lparr>sType := str ''int'', sName := str ''f''\<rparr>,
      (newMember Constant)\<lparr>sType := str ''int'', sName := str ''f'', sValue := str ''1''\<rparr>,
      (newMember Function)\<lparr>sType := str ''int'', sName := str ''g''\<rparr>]"
  by (simp add: keeping_sort_def byName_def newMember_def str_def)

lemma shadow_reversing:
  "reversing_sort byName
     [(newMember Function)\<lparr>sType := str ''int'', sName := str ''g''\<rparr>,
      (newMember Function)\<lparr>sType := str ''int'', sName := str ''f''\<rparr>,
      (newMember Constant)\<lparr>sType := str ''int'', sName := str ''f'', sValue := str ''1''\<rparr>] =
     [(newMember Constant)\<lparr>sType := str ''int'', sName := str ''f'', sValue := str ''1''\<rparr>,
      (newMember Function)\<lparr>sType := str ''int'', sName := str ''f''\<rparr>,
      (newMember Function)\<lparr>sType := str ''int'', sName := str ''g''\<rparr>]"
  by (simp add: reversing_sort_def byName_def newMember_def str_def)

lemma shadow_ParseFile_keeping:
  "ParseFile (examplePlatform (oneFile script_nss shadowText) bomEncoding keeping_sort) script_nss freshResults =
     (True, \<lparr>EngineStructuresCount = 0, FunctionsCount = 2, ConstantsCount = 1,
        Members = [(newMember Function)\<lparr>sType := str ''int'', sName := str ''f''\<rparr>,
      (newMember Constant)\<lparr>sType := str ''int'', sName := str ''f'', sValue := str ''1''\<rparr>,
      (newMember Function)\<lparr>sType := str ''int'', sName := str ''g''\<rparr>]\<rparr>)"
  using passes_shadowText shadow_keeping
  by (simp add: ParseFile_unfold CreateNWScriptStructureA_def CreateNWScriptStructure_def freshResults_def)

theorem members_sorted_by_name_witness:
  "std_sort_contract (std_sort (examplePlatform (oneFile script_nss shadowText) bomEncoding keeping_sort)) byName
   \<and> ParseFile (examplePlatform (oneFile script_nss shadowText) bomEncoding keeping_sort) script_nss freshResults =
     (True, \<lparr>EngineStructuresCount = 0, FunctionsCount = 2, ConstantsCount = 1,
        Members = [(newMember Function)\<lparr>sType := str ''int'', sName := str ''f''\<rparr>,
      (newMember Constant)\<lparr>sType := str ''int'', sName := str ''f'', sValue := str ''1''\<rparr>,
      (newMember Function)\<lparr>sType := str ''int'', sName := str ''g''\<rparr>]\<rparr>)
   \<and> sorted_wrt (\<lambda>a b. sName a \<le> sName b)
        [(newMember Function)\<lparr>sType := str ''int'', sName := str ''f''\<rparr>,
         (newMember Constant)\<lparr>sType := str ''int'', sName := str ''f'', sValue := str ''1''\<rparr>,
         (newMember Function)\<lparr>sType := str ''int'', sName := str ''g''\<rparr>]"
proof -
  have c: "std_sort_contract (std_sort (examplePlatform (oneFile script_nss shadowText) bomEncoding keeping_sort)) byName"
    by (simp add: keeping_sort_contract)
  show ?thesis
    using c shadow_ParseFile_keeping members_sorted_by_name[OF c shadow_ParseFile_keeping]
    by simp
qed

section \<open>Reading the file\<close>

lemma ParseFile_ignores_success:
  assumes "targetFile P f = Some t" and "readFile P t = None"
  shows "fst (ParseFile P f r) = True \<and> fileBuffer P f = Some []"
  using assms by (simp add: ParseFile_def fileBuffer_def FileToBuffer_def Let_def)

lemma sort_effect [simp]:
  "keeping_sort byName [effectMember] = [effectMember]"
  "keeping_sort byName [effectMember, effectMember] = [effectMember, effectMember]"
  "keeping_sort byName [] = []"
  by (simp_all add: keeping_sort_def byName_def)

text \<open>
  C1. When the bytes of the file cannot be read, \<^verbatim>\<open>ParseFile\<close> should return failure
  without running an extraction. On a file that does not open, the call below returns
  \<open>True\<close>, and the narrow extraction has run on the empty buffer: it has set the three
  counters of the supplied result to 0.
\<close>

theorem unreadable_file_is_parsed:
  "FileToBuffer (examplePlatform (\<lambda>p. None) bomEncoding keeping_sort) script_nss = (False, [])
   \<and> ParseFile (examplePlatform (\<lambda>p. None) bomEncoding keeping_sort) script_nss earlierResults =
       (True, \<lparr>EngineStructuresCount = 0, FunctionsCount = 0, ConstantsCount = 0,
               Members = [effectMember]\<rparr>)"
  using passes_empty
  by (simp add: FileToBuffer_def ParseFile_unfold CreateNWScriptStructureA_def
      CreateNWScriptStructure_def earlierResults_def)

section \<open>The dispatch on the verdict\<close>

lemma structLine_A:
  "CreateNWScriptStructureA (examplePlatform files detect srt) structLine freshResults = earlierResults"
  using passes_structLine
  by (simp add: CreateNWScriptStructureA_def CreateNWScriptStructure_def freshResults_def
      earlierResults_def effectMember_def)

text \<open>
  C2 as stated fails: with a verdict outside the seven classes the call returns the
  supplied result as it was, while the narrow extraction of the same buffer finds the
  engine structure.
\<close>

theorem unclassified_verdict_counterexample:
  "verdict (examplePlatform (oneFile script_nss structLine) (\<lambda>b. uniOther (- 1)) keeping_sort) structLine
     = uniOther (- 1)
   \<and> ParseFile (examplePlatform (oneFile script_nss structLine) (\<lambda>b. uniOther (- 1)) keeping_sort)
        script_nss freshResults = (True, freshResults)
   \<and> CreateNWScriptStructureA (examplePlatform (oneFile script_nss structLine) (\<lambda>b. uniOther (- 1)) keeping_sort)
        structLine freshResults = earlierResults
   \<and> Members earlierResults \<noteq> Members freshResults"
proof -
  have "Members earlierResults \<noteq> Members freshResults"
    by (simp add: freshResults_def earlierResults_def)
  moreover have "freshResults\<lparr>Members := []\<rparr> = freshResults"
    by (simp add: freshResults_def)
  ultimately show ?thesis
    by (simp add: ParseFile_unfold structLine_A) (simp add: freshResults_def)
qed

text \<open>
  C2, amended. For every buffer whose verdict is none of the narrow or wide classes,
  no extraction runs: \<^verbatim>\<open>ParseFile\<close> reports success and leaves the supplied result as it
  was, apart from sorting the members it already had.
\<close>

theorem unclassified_verdict_skips_extraction:
  assumes "fileBuffer P sFileName = Some buf"
    and "\<not> isNarrow (verdict P buf)" and "\<not> isWide (verdict P buf)"
  shows "ParseFile P sFileName r = (True, r\<lparr>Members := std_sort P byName (Members r)\<rparr>)"
  using assms by (simp add: ParseFile_unfold)

theorem unclassified_verdict_skips_extraction_witness:
  "fileBuffer (examplePlatform (oneFile script_nss structLine) (\<lambda>b. uniOther (- 1)) keeping_sort) script_nss
     = Some structLine
   \<and> \<not> isNarrow (verdict (examplePlatform (oneFile script_nss structLine) (\<lambda>b. uniOther (- 1)) keeping_sort) structLine)
   \<and> \<not> isWide (verdict (examplePlatform (oneFile script_nss structLine) (\<lambda>b. uniOther (- 1)) keeping_sort) structLine)
   \<and> ParseFile (examplePlatform (oneFile script_nss structLine) (\<lambda>b. uniOther (- 1)) keeping_sort)
        script_nss earlierResults = (True, earlierResults)"
  using unclassified_verdict_skips_extraction
    [of "examplePlatform (oneFile script_nss structLine) (\<lambda>b. uniOther (- 1)) keeping_sort"
        script_nss structLine earlierResults]
  by (simp add: earlierResults_def)

section \<open>The wide path\<close>

text \<open>
  C9. A buffer that begins with the UTF-16 little-endian byte-order mark should give
  the same members as the narrow buffer with the same text. The wide path does run, but
  it keeps the byte-order mark as the first character of its subject, so a declaration
  on the first line is found in the narrow buffer and not in the wide one.
\<close>

theorem wide_path_misses_first_line:
  "verdict (examplePlatform (oneFile script_nss (utf16le structLine)) bomEncoding keeping_sort)
      (utf16le structLine) = uni16LE
   \<and> hd (wide_units (utf16le structLine)) = 0xFEFF
   \<and> tl (wide_units (utf16le structLine)) = map of_char structLine
   \<and> ParseFile (examplePlatform (oneFile script_nss (utf16le structLine)) bomEncoding keeping_sort)
        script_nss freshResults = (True, freshResults)
   \<and> ParseFile (examplePlatform (oneFile script_nss structLine) bomEncoding keeping_sort)
        script_nss freshResults = (True, earlierResults)"
proof -
  have "wide_units (utf16le structLine) = 0xFEFF # map of_char structLine"
    by (simp add: utf16le_def structLine_def)
  moreover have "ParseFile (examplePlatform (oneFile script_nss (utf16le structLine)) bomEncoding keeping_sort)
        script_nss freshResults = (True, freshResults)"
    using passes_structLine_wide
    by (simp add: ParseFile_unfold CreateNWScriptStructureW_def CreateNWScriptStructure_def freshResults_def)
  moreover have "ParseFile (examplePlatform (oneFile script_nss structLine) bomEncoding keeping_sort)
        script_nss freshResults = (True, earlierResults)"
    by (simp add: ParseFile_unfold structLine_A earlierResults_def)
  ultimately show ?thesis by simp
qed

section \<open>Equal names\<close>




section \<open>The counters\<close>

lemma sort_2effect:
  "std_sort (examplePlatform files detect keeping_sort) byName [effectMember, effectMember]
     = [effectMember, effectMember]"
  by simp

text \<open>
  C5 as stated fails: the supplied result holds the engine structure of an earlier call
  on the same file. After the call the counter of engine structures is 1 and the
  members hold two engine structures.
\<close>

theorem counters_after_reuse_counterexample:
  "ParseFile (examplePlatform (oneFile script_nss structLine) bomEncoding keeping_sort) script_nss freshResults
     = (True, earlierResults)
   \<and> ParseFile (examplePlatform (oneFile script_nss structLine) bomEncoding keeping_sort) script_nss earlierResults
     = (True, earlierResults\<lparr>Members := [effectMember, effectMember]\<rparr>)
   \<and> counter EngineStruct (earlierResults\<lparr>Members := [effectMember, effectMember]\<rparr>) = 1
   \<and> length (ofKind EngineStruct (Members (earlierResults\<lparr>Members := [effectMember, effectMember]\<rparr>))) = 2"
proof -
  have "ParseFile (examplePlatform (oneFile script_nss structLine) bomEncoding keeping_sort) script_nss freshResults
     = (True, earlierResults)"
    by (simp add: ParseFile_unfold structLine_A earlierResults_def)
  moreover have "ParseFile (examplePlatform (oneFile script_nss structLine) bomEncoding keeping_sort) script_nss earlierResults
     = (True, earlierResults\<lparr>Members := [effectMember, effectMember]\<rparr>)"
    using passes_structLine
    by (simp add: ParseFile_unfold CreateNWScriptStructureA_def CreateNWScriptStructure_def
        earlierResults_def effectMember_def [symmetric])
  moreover have "counter EngineStruct (earlierResults\<lparr>Members := [effectMember, effectMember]\<rparr>) = 1"
    by (simp add: counter_def earlierResults_def)
  moreover have "length (ofKind EngineStruct (Members (earlierResults\<lparr>Members := [effectMember, effectMember]\<rparr>))) = 2"
    by (simp add: ofKind_def effectMember_def newMember_def)
  ultimately show ?thesis by simp
qed

text \<open>
  C5, amended. After every call in which an extraction path runs on a result that held
  no members, each of the three counters equals the number of records of its kind in
  the members; a kind of which the buffer has no declaration has the counter 0 and no
  record in the members.
\<close>

theorem counters_count_members:
  assumes "std_sort_contract (std_sort P) byName"
    and "fileBuffer P sFileName = Some buf"
    and "isNarrow (verdict P buf) \<or> isWide (verdict P buf)"
    and "Members r = []"
    and "r' = snd (ParseFile P sFileName r)"
  shows "counter k r' = length (ofKind k (Members r'))
       \<and> (discoveredBy P (verdict P buf) buf k = [] \<longrightarrow> counter k r' = 0 \<and> ofKind k (Members r') = [])"
proof -
  have "mset (Members r') = mset (discovered P (verdict P buf) buf)"
    using assms(2,4,5) contract_mset[OF assms(1)] by (simp add: ParseFile_Members)
  then have "length (ofKind k (Members r')) = length (ofKind k (discovered P (verdict P buf) buf))"
    by (rule length_ofKind_mset)
  then have len: "length (ofKind k (Members r')) = length (discoveredBy P (verdict P buf) buf k)"
    by (simp add: ofKind_discovered)
  have "counter k r' = length (discoveredBy P (verdict P buf) buf k)"
    using assms(2,3,5) by (simp add: ParseFile_counter)
  with len show ?thesis by auto
qed

theorem counters_count_members_witness:
  "std_sort_contract (std_sort (examplePlatform (oneFile script_nss shadowText) bomEncoding keeping_sort)) byName
   \<and> fileBuffer (examplePlatform (oneFile script_nss shadowText) bomEncoding keeping_sort) script_nss
       = Some shadowText
   \<and> isNarrow (verdict (examplePlatform (oneFile script_nss shadowText) bomEncoding keeping_sort) shadowText)
   \<and> Members freshResults = []
   \<and> counter Function (snd (ParseFile (examplePlatform (oneFile script_nss shadowText) bomEncoding keeping_sort)
        script_nss freshResults)) = 2
   \<and> length (ofKind Function (Members (snd (ParseFile (examplePlatform (oneFile script_nss shadowText) bomEncoding keeping_sort)
        script_nss freshResults)))) = 2"
proof -
  let ?P = "examplePlatform (oneFile script_nss shadowText) bomEncoding keeping_sort"
  have c: "std_sort_contract (std_sort ?P) byName"
    by (simp add: keeping_sort_contract)
  have b: "fileBuffer ?P script_nss = Some shadowText"
    by simp
  have n: "isNarrow (verdict ?P shadowText) \<or> isWide (verdict ?P shadowText)"
    by simp
  have e: "Members freshResults = []"
    by (simp add: freshResults_def)
  have "counter Function (snd (ParseFile ?P script_nss freshResults)) = 2"
    using shadow_ParseFile_keeping by (simp add: counter_def)
  then show ?thesis
    using c b e counters_count_members[OF c b n e refl, of Function] by simp
qed

section \<open>Results that already hold records\<close>

text \<open>
  C10 as stated fails: with a verdict outside the seven classes the call extracts no
  record, and the counter of engine structures still is the 1 of the earlier call.
\<close>

theorem counters_not_overwritten_counterexample:
  "discovered (examplePlatform (oneFile script_nss structLine) (\<lambda>b. uniOther (- 1)) keeping_sort)
      (verdict (examplePlatform (oneFile script_nss structLine) (\<lambda>b. uniOther (- 1)) keeping_sort) structLine)
      structLine = []
   \<and> counter EngineStruct
       (snd (ParseFile (examplePlatform (oneFile script_nss structLine) (\<lambda>b. uniOther (- 1)) keeping_sort)
          script_nss earlierResults)) = 1"
  by (simp add: ParseFile_counter discovered_def discoveredBy_simps) (simp add: counter_def earlierResults_def)

text \<open>
  C10, amended. \<^verbatim>\<open>ParseFile\<close> appends the records it extracts to the supplied result
  without clearing it: after every call that reads a buffer, the members are the
  records the result already held together with the records of this call, in the
  order of the final sort. Where an extraction path runs (the verdict is a narrow or a
  wide class), the three counters are overwritten and count the records of this call
  only; where none runs, the counters stay as they were.
\<close>

theorem ParseFile_appends_to_results:
  assumes "std_sort_contract (std_sort P) byName"
    and "fileBuffer P sFileName = Some buf"
    and "r' = snd (ParseFile P sFileName r)"
  shows "mset (Members r') = mset (Members r) + mset (discovered P (verdict P buf) buf)
       \<and> sorted_wrt (\<lambda>a b. sName a \<le> sName b) (Members r')
       \<and> (isNarrow (verdict P buf) \<or> isWide (verdict P buf)
            \<longrightarrow> counter k r' = length (ofKind k (discovered P (verdict P buf) buf)))
       \<and> (\<not> isNarrow (verdict P buf) \<and> \<not> isWide (verdict P buf) \<longrightarrow> counter k r' = counter k r)"
  using assms(2,3) contract_mset[OF assms(1)] contract_sorted[OF assms(1)]
  by (simp add: ParseFile_Members ParseFile_counter ofKind_discovered)

theorem ParseFile_appends_to_results_witness:
  "std_sort_contract (std_sort (examplePlatform (oneFile script_nss structLine) bomEncoding keeping_sort)) byName
   \<and> fileBuffer (examplePlatform (oneFile script_nss structLine) bomEncoding keeping_sort) script_nss
       = Some structLine
   \<and> isNarrow (verdict (examplePlatform (oneFile script_nss structLine) bomEncoding keeping_sort) structLine)
   \<and> mset (Members (snd (ParseFile (examplePlatform (oneFile script_nss structLine) bomEncoding keeping_sort)
        script_nss earlierResults))) = mset (Members earlierResults) + mset [effectMember]
   \<and> counter EngineStruct (snd (ParseFile (examplePlatform (oneFile script_nss structLine) bomEncoding keeping_sort)
        script_nss earlierResults)) = 1"
proof -
  let ?P = "examplePlatform (oneFile script_nss structLine) bomEncoding keeping_sort"
  have c: "std_sort_contract (std_sort ?P) byName"
    by (simp add: keeping_sort_contract)
  have b: "fileBuffer ?P script_nss = Some structLine"
    by simp
  have d: "discovered ?P uni8Bit structLine = [effectMember]"
    using passes_structLine by (simp add: discovered_def discoveredBy_simps effectMember_def)
  have o: "ofKind EngineStruct [effectMember] = [effectMember]"
    by (simp add: ofKind_def effectMember_def newMember_def)
  show ?thesis
    using c b ParseFile_appends_to_results[OF c b refl, of earlierResults EngineStruct]
    by (simp add: d o)
qed

section \<open>Matches never move backwards\<close>

lemma lit_suffix: "st' \<in> set (lit w st) \<Longrightarrow> \<exists>u. rem st = u @ rem st'"
proof (induction w arbitrary: st)
  case Nil
  then show ?case by simp
next
  case (Cons k ks)
  show ?case
  proof (cases "rem st")
    case Nil
    with Cons.prems show ?thesis by simp
  next
    case (Cons c cs)
    with Cons.prems have "c = k" and "st' \<in> set (lit ks (st\<lparr>prev := Some c, rem := cs\<rparr>))"
      by (auto split: if_splits)
    then obtain u where "cs = u @ rem st'"
      using Cons.IH by fastforce
    with Cons show ?thesis by simp
  qed
qed

lemma step1_suffix: "st' \<in> set (step1 ok st) \<Longrightarrow> \<exists>u. rem st = u @ rem st'"
  by (cases "rem st") (auto simp: step1_def split: if_splits)

lemma rx_match_suffix: "st' \<in> set (rx_match ds d r st) \<Longrightarrow> \<exists>u. rem st = u @ rem st'"
proof (induction ds d r st arbitrary: st' rule: rx_match.induct)
  case (8 ds d a b st)
  from "8.prems" obtain st1 where st1: "st1 \<in> set (rx_match ds d a st)" "fwd st st1"
    and st': "st' \<in> set (rx_match ds d b st1)"
    by (auto simp: rx_match.simps)
  from "8.IH"(1)[OF st1(1)] obtain u where "rem st = u @ rem st1" by blast
  moreover from "8.IH"(2)[of st1 st'] st1 st' obtain v where "rem st1 = v @ rem st'" by auto
  ultimately show ?case by simp
next
  case (11 ds d a st)
  from "11.prems" consider "st' = st"
    | st1 where "st1 \<in> set (rx_match ds d a st)" "prog st st1" "st' \<in> set (rx_match ds d (Star a) st1)"
    | st1 where "st1 \<in> set (rx_match ds d a st)" "\<not> prog st st1" "st' = st1"
    by (subst (asm) rx_match.simps) (auto split: if_splits)
  then show ?case
  proof cases
    case 1
    then show ?thesis by simp
  next
    case 2
    from "11.IH"(1)[OF 2(1)] obtain u where "rem st = u @ rem st1" by blast
    moreover from "11.IH"(2)[OF 2] obtain v where "rem st1 = v @ rem st'" by blast
    ultimately show ?thesis by simp
  next
    case 3
    with "11.IH"(1)[of st1] show ?thesis by simp
  qed
next
  case (12 ds d a st)
  from "12.prems" consider "st' = st"
    | st1 where "st1 \<in> set (rx_match ds d a st)" "prog st st1" "st' \<in> set (rx_match ds d (StarLazy a) st1)"
    | st1 where "st1 \<in> set (rx_match ds d a st)" "\<not> prog st st1" "st' = st1"
    by (subst (asm) rx_match.simps) (auto split: if_splits)
  then show ?case
  proof cases
    case 1
    then show ?thesis by simp
  next
    case 2
    from "12.IH"(1)[OF 2(1)] obtain u where "rem st = u @ rem st1" by blast
    moreover from "12.IH"(2)[OF 2] obtain v where "rem st1 = v @ rem st'" by blast
    ultimately show ?thesis by simp
  next
    case 3
    with "12.IH"(1)[of st1] show ?thesis by simp
  qed
next
  case (13 ds d a st)
  from "13.prems" have "st' \<in> set (rx_match ds d a st)"
    by (auto simp: rx_match.simps dest: in_set_takeD)
  then show ?case by (rule "13.IH")
next
  case (14 ds d n a st)
  from "14.prems" obtain st1 where "st1 \<in> set (rx_match ds d a st)" "rem st' = rem st1"
    by (auto simp: rx_match.simps)
  with "14.IH" show ?case by fastforce
next
  case (15 ds d n st)
  show ?case
  proof (cases d)
    case 0
    with "15.prems" show ?thesis by (simp add: rx_match.simps)
  next
    case (Suc d')
    show ?thesis
    proof (cases "map_of ds n")
      case None
      with Suc "15.prems" show ?thesis by (simp add: rx_match.simps)
    next
      case (Some body)
      with Suc "15.prems" obtain st1 where "st1 \<in> set (rx_match ds d' body st)" "rem st' = rem st1"
        by (auto simp: rx_match.simps)
      with "15.IH"[OF Suc Some] show ?thesis by fastforce
    qed
  qed
qed (auto simp: rx_match.simps dest: lit_suffix step1_suffix split: if_splits)

lemma rx_match_fwd: "st' \<in> set (rx_match ds d r st) \<Longrightarrow> fwd st st'"
  by (auto simp: fwd_def dest: rx_match_suffix)

lemma rx_match_Seq:
  "rx_match ds d (Seq a b) st = concat (map (rx_match ds d b) (rx_match ds d a st))"
proof -
  have "filter (fwd st) (rx_match ds d a st) = rx_match ds d a st"
    by (simp add: filter_id_conv rx_match_fwd)
  then show ?thesis by (simp add: rx_match.simps)
qed

section \<open>Literals and runs of one class\<close>

lemma after_append [simp]: "after p (u @ v) = after (after p u) v"
  by (induction u arbitrary: p) simp_all

lemma stops_simps [simp]:
  "stops P []" "stops P (c # cs) = (\<not> P c)"
  by (simp_all add: stops_def)

lemma take1_eq_iff: "take (Suc 0) xs = [x] \<longleftrightarrow> (\<exists>r. xs = x # r)"
  by (cases xs) auto

lemma lit_eq:
  "lit w (St p s g) =
     (if take (length w) s = w then [St (after p w) (drop (length w) s) g] else [])"
proof (induction w arbitrary: p s)
  case Nil
  then show ?case by simp
next
  case (Cons k ks)
  then show ?case by (cases s) auto
qed

lemma lit_append [simp]: "lit w (St p (w @ s) g) = [St (after p w) s g]"
  by (simp add: lit_eq)

lemma lit_mismatch: "take (length w) s \<noteq> w \<Longrightarrow> lit w (St p s g) = []"
  by (simp add: lit_eq)

lemma lit1 [simp]: "lit [k] (St p (c # s) g) = (if c = k then [St (Some c) s g] else [])"
  by simp

lemma lit_stops: "stops (\<lambda>c. c = k) s \<Longrightarrow> lit (k # ks) (St p s g) = []"
  by (cases s) simp_all

lemmas rx_basic [simp] =
  rx_match.simps(1-7) rx_match.simps(9,10) rx_match.simps(13,14) rx_match.simps(16,17) rx_match_Seq

lemma seqs_simps [simp]:
  "seqs [] = Eps" "seqs (r # rs) = Seq r (seqs rs)"
  by (simp_all add: seqs_def)

lemma step1_St [simp]:
  "step1 ok (St p [] g) = []"
  "step1 ok (St p (c # s) g) = (if ok c then [St (Some c) s g] else [])"
  by (simp_all add: step1_def)

lemma step1_stops: "stops ok s \<Longrightarrow> step1 ok (St p s g) = []"
  by (cases s) simp_all

text \<open>A greedy star over a single-unit pattern takes the longest run first.\<close>

lemma star_units:
  assumes unit: "\<And>p c r g. ok c \<Longrightarrow> rx_match ds d a (St p (c # r) g) = [St (Some c) r g]"
    and stop: "\<And>p g. rx_match ds d a (St p s g) = []"
    and "list_all ok w"
  shows "take (Suc 0) (rx_match ds d (Star a) (St p (w @ s) g)) = [St (after p w) s g]"
  using assms(3)
proof (induction w arbitrary: p)
  case Nil
  show ?case
    by (subst rx_match.simps) (simp add: stop)
next
  case (Cons c w)
  then have "take (Suc 0) (rx_match ds d (Star a) (St (Some c) (w @ s) g)) = [St (after (Some c) w) s g]"
    by simp
  then obtain r where "rx_match ds d (Star a) (St (Some c) (w @ s) g) = St (after (Some c) w) s g # r"
    by (auto simp: take1_eq_iff)
  then show ?case
    using Cons.prems by (subst rx_match.simps) (simp add: unit prog_def)
qed

lemma star_run:
  assumes a: "\<And>st. rx_match ds d a st = step1 ok st"
    and "list_all ok w" and "stops ok s"
  shows "take (Suc 0) (rx_match ds d (Star a) (St p (w @ s) g)) = [St (after p w) s g]"
  using assms(2) by (intro star_units[where ok = ok]) (simp_all add: a step1_stops[OF assms(3)])

lemma poss_star_class [simp]:
  assumes "list_all (\<lambda>c. in_items c its) w" and "stops (\<lambda>c. in_items c its) s"
  shows "take (Suc 0) (rx_match ds d (Star (Class its)) (St p (w @ s) g)) = [St (after p w) s g]"
  using star_run[of ds d "Class its" "\<lambda>c. in_items c its" w s p g] assms by simp

lemma poss_star_class_none [simp]:
  assumes "stops (\<lambda>c. in_items c its) s"
  shows "take (Suc 0) (rx_match ds d (Star (Class its)) (St p s g)) = [St p s g]"
  using poss_star_class[of its "[]" s ds d p g] assms by simp

lemma plus_class:
  assumes "w \<noteq> []" and "list_all (\<lambda>c. in_items c its) w" and "stops (\<lambda>c. in_items c its) s"
  shows "take (Suc 0) (rx_match ds d (rx_plus (Class its)) (St p (w @ s) g)) = [St (after p w) s g]"
proof -
  from assms(1) obtain c w' where w: "w = c # w'" by (cases w) auto
  with assms(2) have "list_all (\<lambda>c. in_items c its) w'" by simp
  from star_run[of ds d "Class its" "\<lambda>c. in_items c its" w' s "Some c" g, OF _ this assms(3)]
  obtain r where "rx_match ds d (Star (Class its)) (St (Some c) (w' @ s) g) = St (after (Some c) w') s g # r"
    by (auto simp: take1_eq_iff)
  then show ?thesis using assms(2) by (simp add: w rx_plus_def)
qed

lemma plus_class_fail:
  assumes "stops (\<lambda>c. in_items c its) s"
  shows "rx_match ds d (rx_plus (Class its)) (St p s g) = []"
  using assms by (simp add: rx_plus_def step1_stops)

lemma in_items_word [simp]: "in_items c [WordC] = is_word c"
  by (simp add: in_items_def)

lemma in_items_space [simp]: "in_items c [SpaceC] = is_space c"
  by (simp add: in_items_def)

lemma word_run [simp]:
  assumes "w \<noteq> []" and "list_all is_word w" and "stops is_word s"
  shows "take (Suc 0) (rx_match ds d (rx_plus rx_word) (St p (w @ s) g)) = [St (after p w) s g]"
  using plus_class[of w "[WordC]" s ds d p g] assms by (simp add: rx_word_def)

lemma word_run_fail [simp]:
  assumes "stops is_word s"
  shows "rx_match ds d (rx_plus rx_word) (St p s g) = []"
  using plus_class_fail[of "[WordC]" s ds d p g] assms by (simp add: rx_word_def)

section \<open>Comments, white space and tokens\<close>

lemma in_items_tokch [simp]: "in_items c [WordC, DigitC, Ch 46, Ch 45] = is_tokch c"
  by (simp add: in_items_def is_tokch_def)

lemma Call_Suc:
  "rx_match ds (Suc d) (Call n) st =
     (case map_of ds n of None \<Rightarrow> []
      | Some body \<Rightarrow> map (\<lambda>st'. st'\<lparr>caps := caps st\<rparr>) (rx_match ds d body st))"
  by (simp add: rx_match.simps)

lemma Call_0 [simp]: "rx_match ds 0 (Call n) st = []"
  by (simp add: rx_match.simps)

lemma base_lookup [simp]:
  "map_of BASEREGEX ''commentLine'' = Some rx_commentLine"
  "map_of BASEREGEX ''comment'' = Some rx_comment"
  "map_of BASEREGEX ''c'' = Some rx_c"
  "map_of BASEREGEX ''token'' = Some rx_token"
  "map_of BASEREGEX ''tokenVector'' = Some (rx_aggregate 91 93)"
  "map_of BASEREGEX ''object'' = Some (rx_aggregate 123 125)"
  "map_of BASEREGEX ''param'' = Some rx_param"
  by (simp_all add: BASEREGEX_def)

lemma str_simps [simp]:
  "str [] = []" "str (c # cs) = of_char c # str cs"
  by (simp_all add: str_def)

text \<open>Where the text does not begin with a slash, no comment begins.\<close>

lemma no_comment [simp]:
  assumes "stops (\<lambda>c. c = 47) s"
  shows "rx_match BASEREGEX d (Call ''comment'') (St p s g) = []"
    and "rx_match BASEREGEX d (Call ''commentLine'') (St p s g) = []"
  using assms
  by (cases d; cases s; simp add: Call_Suc rx_comment_def rx_commentLine_def)+

lemma stops_weaken: "stops (\<lambda>c. P c \<or> Q c) s \<Longrightarrow> stops P s \<and> stops Q s"
  by (cases s) simp_all

text \<open>\<open>c\<close> takes a run of white space, up to a character that is neither white space nor a slash.\<close>

lemma c_body:
  assumes "list_all is_space w" and "stops (\<lambda>c. is_space c \<or> c = 47) s"
  shows "rx_match BASEREGEX d (Atomic (seqs
     [Atomic (Star rx_space),
      Opt (Atomic (Alt (Call ''comment'') (Call ''commentLine''))),
      Atomic (Star rx_space)])) (St p (w @ s) g) = [St (after p w) s g]"
  using assms stops_weaken[OF assms(2)] by (simp add: rx_space_def)

lemma c_run [simp]:
  assumes "list_all is_space w" and "stops (\<lambda>c. is_space c \<or> c = 47) s"
  shows "rx_match BASEREGEX (Suc d) (Call ''c'') (St p (w @ s) g) = [St (after p w) s g]"
proof -
  let ?B = "Atomic (seqs
     [Atomic (Star rx_space),
      Opt (Atomic (Alt (Call ''comment'') (Call ''commentLine''))),
      Atomic (Star rx_space)])"
  have end_: "rx_match BASEREGEX d (Star ?B) (St (after p w) s g) = [St (after p w) s g, St (after p w) s g]"
    using c_body[of "[]" s d "after p w" g] assms(2)
    by (subst rx_match.simps) (simp add: prog_def)
  have "take (Suc 0) (rx_match BASEREGEX d (Star ?B) (St p (w @ s) g)) = [St (after p w) s g]"
  proof (cases "w = []")
    case True
    with end_ show ?thesis by simp
  next
    case False
    then show ?thesis
      using c_body[OF assms, of d p g] end_
      by (subst rx_match.simps) (simp add: prog_def)
  qed
  then show ?thesis
    by (simp add: Call_Suc rx_c_def)
qed

lemma c_none [simp]:
  assumes "stops (\<lambda>c. is_space c \<or> c = 47) s"
  shows "rx_match BASEREGEX (Suc d) (Call ''c'') (St p s g) = [St p s g]"
  using c_run[of "[]" s d p g] assms by simp

text \<open>A bare token is a run of token characters.\<close>

lemma tokch_not_quote: "is_tokch c \<Longrightarrow> c \<noteq> 34 \<and> c \<noteq> 47"
  by (auto simp: is_tokch_def is_word_def is_digit_def)

lemma token_run [simp]:
  assumes "t \<noteq> []" and "list_all is_tokch t" and "stops is_tokch s"
  shows "rx_match BASEREGEX (Suc d) (Call ''token'') (St p (t @ s) g) = [St (after p t) s g]"
proof -
  from assms(1) obtain c t' where t: "t = c # t'" by (cases t) auto
  with assms(2) have c: "is_tokch c" by simp
  have "take (Suc 0) (rx_match BASEREGEX d (rx_plus (Class [WordC, DigitC, Ch 46, Ch 45])) (St p (t @ s) g))
      = [St (after p t) s g]"
    using assms by (intro plus_class) simp_all
  then show ?thesis
    using tokch_not_quote[OF c] by (simp add: Call_Suc rx_token_def t)
qed

text \<open>A string is taken up to its closing quote.\<close>

lemma string_run [simp]:
  assumes "list_all is_strch b"
  shows "rx_match BASEREGEX (Suc d) (Call ''token'') (St p (34 # b @ 34 # s) g) = [St (Some 34) s g]"
proof -
  let ?X = "Alt (Seq (Lit [92]) Dot) (NotClass [Ch 34, Ch 92])"
  have "take (Suc 0) (rx_match BASEREGEX d (Star ?X) (St (Some 34) (b @ 34 # s) g))
      = [St (after (Some 34) b) (34 # s) g]"
    using assms
    by (intro star_units[where ok = is_strch]) (simp_all add: is_strch_def in_items_def)
  then obtain r where "rx_match BASEREGEX d (Star ?X) (St (Some 34) (b @ 34 # s) g)
      = St (after (Some 34) b) (34 # s) g # r"
    by (auto simp: take1_eq_iff)
  then show ?thesis
    by (simp add: Call_Suc rx_token_def)
qed

lemma token_fail [simp]:
  assumes "stops (\<lambda>c. is_tokch c \<or> c = 34) s"
  shows "rx_match BASEREGEX d (Call ''token'') (St p s g) = []"
proof (cases d)
  case 0
  then show ?thesis by simp
next
  case (Suc d')
  have "rx_match BASEREGEX d' (rx_plus (Class [WordC, DigitC, Ch 46, Ch 45])) (St p s g) = []"
    using assms stops_weaken[OF assms] by (intro plus_class_fail) simp
  moreover have "lit [34] (St p s g) = []"
    using assms by (cases s) simp_all
  ultimately show ?thesis
    by (simp add: Suc Call_Suc rx_token_def)
qed

lemma aggregate_fail [simp]:
  "stops (\<lambda>c. c = 91) s \<Longrightarrow> rx_match BASEREGEX d (Call ''tokenVector'') (St p s g) = []"
  "stops (\<lambda>c. c = 123) s \<Longrightarrow> rx_match BASEREGEX d (Call ''object'') (St p s g) = []"
  by (cases d; cases s; simp add: Call_Suc rx_aggregate_def)+

lemma value_fail:
  assumes "stops (\<lambda>c. is_tokch c \<or> c = 34 \<or> c = 91 \<or> c = 123) s"
  shows "rx_match BASEREGEX d rx_value (St p s g) = []"
proof -
  from assms have "stops (\<lambda>c. is_tokch c \<or> c = 34) s" "stops (\<lambda>c. c = 91) s" "stops (\<lambda>c. c = 123) s"
    by (cases s; simp)+
  then show ?thesis by (simp add: rx_value_def)
qed

section \<open>Aggregates\<close>

lemma join_Cons: "join sep (x # xs) = x @ (if xs = [] then [] else sep @ join sep xs)"
  by (cases xs) simp_all

lemma render_start: "wf_value v \<Longrightarrow> \<exists>c r. render ws v = c # r \<and> value_start c"
proof (cases v)
  case (Tok t)
  assume "wf_value v"
  with Tok show ?thesis by (cases t) (auto simp: value_start_def)
qed (auto simp: value_start_def)

lemma value_start_facts:
  "value_start c \<Longrightarrow> \<not> is_space c \<and> c \<noteq> 47 \<and> c \<noteq> 93 \<and> c \<noteq> 125 \<and> c \<noteq> 44"
  by (auto simp: value_start_def is_tokch_def is_word_def is_digit_def is_space_def)

lemma foldr_max_le: "x \<in> set xs \<Longrightarrow> x \<le> foldr max xs (b::nat)"
  by (induction xs) (auto simp: max_def)

lemma foldr_max_ge: "b \<le> foldr max xs (b::nat)"
  by (induction xs) (auto simp: max_def)

lemma vdepth_elem:
  "v \<in> set vs \<Longrightarrow> vdepth v \<le> foldr max (map vdepth vs) 1"
  by (simp add: foldr_max_le)

lemma vdepth_pos: "0 < vdepth v"
  by (cases v) simp_all

text \<open>The two aggregates: the items of a rendered list, then the closing bracket.\<close>

lemma aggregate_items:
  assumes ws: "list_all is_space ws"
    and cl: "cl = 93 \<or> cl = 125"
    and items: "\<And>v p s g. v \<in> set vs \<Longrightarrow> stops is_tokch s \<Longrightarrow>
        rx_match BASEREGEX (Suc d) rx_value (St p (render ws v @ s) g) = [St (after p (render ws v)) s g]"
    and wf: "list_all wf_value vs"
  shows "rx_match BASEREGEX (Suc d)
           (Seq (StarLazy (Atomic (seqs [Atomic rx_value, Call ''c'', Opt (Lit [44]), Call ''c''])))
                (Seq (Call ''c'') (Seq (Lit [cl]) Eps)))
           (St p (join (44 # ws) (map (render ws) vs) @ cl # s) g)
         = [St (Some cl) s g]"
  using items wf
proof (induction vs arbitrary: p)
  case Nil
  have "rx_match BASEREGEX (Suc d) rx_value (St p (cl # s) g) = []"
    using cl by (intro value_fail) (auto simp: is_tokch_def is_word_def is_digit_def)
  then have "rx_match BASEREGEX (Suc d)
      (StarLazy (Atomic (seqs [Atomic rx_value, Call ''c'', Opt (Lit [44]), Call ''c''])))
      (St p (cl # s) g) = [St p (cl # s) g]"
    by (subst rx_match.simps) simp
  then show ?case
    using cl by (auto simp: is_space_def)
next
  case (Cons v vs)
  let ?X = "Atomic (seqs [Atomic rx_value, Call ''c'', Opt (Lit [44]), Call ''c''])"
  let ?K = "Seq (Call ''c'') (Seq (Lit [cl]) Eps)"
  let ?sep = "if vs = [] then [] else 44 # ws"
  let ?rest = "join (44 # ws) (map (render ws) vs) @ cl # s"
  have shape: "join (44 # ws) (map (render ws) (v # vs)) @ cl # s = render ws v @ ?sep @ ?rest"
    by (simp add: join_Cons)
  from Cons.prems(2) have wfv: "wf_value v" and wfs: "list_all wf_value vs" by simp_all
  from render_start[OF wfv, of ws] obtain c r where c: "render ws v = c # r" "value_start c" by blast
  note cf = value_start_facts[OF c(2)]
  have stop_tail: "stops is_tokch (?sep @ ?rest)"
    using cl by (auto simp: is_tokch_def is_word_def is_digit_def)
  have val: "rx_match BASEREGEX (Suc d) rx_value (St p (render ws v @ ?sep @ ?rest) g)
      = [St (after p (render ws v)) (?sep @ ?rest) g]"
    using Cons.prems(1)[of v, OF _ stop_tail] by simp
  have next_start: "stops (\<lambda>c. is_space c \<or> c = 47) ?rest"
  proof (cases vs)
    case Nil
    with cl show ?thesis by (auto simp: is_space_def)
  next
    case (Cons v' vs')
    from wfs Cons render_start[of v' ws] obtain c' r' where "render ws v' = c' # r'" "value_start c'"
      by auto
    with Cons value_start_facts[of c'] show ?thesis by (simp add: join_Cons)
  qed
  have X: "rx_match BASEREGEX (Suc d) ?X (St p (render ws v @ ?sep @ ?rest) g)
      = [St (after p (render ws v @ ?sep)) ?rest g]"
  proof (cases "vs = []")
    case True
    with cl val show ?thesis by (auto simp: is_space_def)
  next
    case False
    then show ?thesis
      using ws next_start val by (simp add: is_space_def)
  qed
  have K0: "rx_match BASEREGEX (Suc d) ?K (St p (render ws v @ ?sep @ ?rest) g) = []"
    using cf cl by (auto simp: c)
  let ?st0 = "St p (render ws v @ ?sep @ ?rest) g"
  let ?st1 = "St (after p (render ws v @ ?sep)) ?rest g"
  have SL: "rx_match BASEREGEX (Suc d) (StarLazy ?X) ?st0
      = ?st0 # rx_match BASEREGEX (Suc d) (StarLazy ?X) ?st1"
    by (subst rx_match.simps(12)) (simp only: X, simp add: prog_def c)
  have "rx_match BASEREGEX (Suc d) (Seq (StarLazy ?X) ?K) ?st0
      = concat (map (rx_match BASEREGEX (Suc d) ?K) (?st0 # rx_match BASEREGEX (Suc d) (StarLazy ?X) ?st1))"
    by (simp only: rx_match_Seq[of _ _ "StarLazy ?X" ?K] SL)
  also have "\<dots> = rx_match BASEREGEX (Suc d) ?K ?st0
      @ concat (map (rx_match BASEREGEX (Suc d) ?K) (rx_match BASEREGEX (Suc d) (StarLazy ?X) ?st1))"
    by (simp only: list.map concat.simps)
  also have "\<dots> = concat (map (rx_match BASEREGEX (Suc d) ?K) (rx_match BASEREGEX (Suc d) (StarLazy ?X) ?st1))"
    by (simp only: K0 append_Nil)
  also have "\<dots> = rx_match BASEREGEX (Suc d) (Seq (StarLazy ?X) ?K) ?st1"
    by (simp only: rx_match_Seq[of _ _ "StarLazy ?X" ?K])
  also have "\<dots> = [St (Some cl) s g]"
    using Cons.IH[OF Cons.prems(1) wfs] by simp
  finally show ?case
    by (simp only: shape)
qed

lemma items_start:
  assumes "list_all wf_value vs" and "cl = 93 \<or> cl = 125"
  shows "stops (\<lambda>c. is_space c \<or> c = 47) (join (44 # ws) (map (render ws) vs) @ cl # s)"
proof (cases vs)
  case Nil
  with assms(2) show ?thesis by (auto simp: is_space_def)
next
  case (Cons v vs')
  with assms(1) render_start[of v ws] obtain c r where "render ws v = c # r" "value_start c"
    by auto
  with Cons value_start_facts[of c] show ?thesis by (simp add: join_Cons)
qed

lemma aggregate_run:
  assumes ws: "list_all is_space ws"
    and br: "(op, cl) = (91, 93) \<or> (op, cl) = (123, 125)"
    and items: "\<And>v p s g. v \<in> set vs \<Longrightarrow> stops is_tokch s \<Longrightarrow>
        rx_match BASEREGEX (Suc d) rx_value (St p (render ws v @ s) g) = [St (after p (render ws v)) s g]"
    and wf: "list_all wf_value vs"
  shows "rx_match BASEREGEX (Suc d) (rx_aggregate op cl)
           (St p (op # join (44 # ws) (map (render ws) vs) @ cl # s) g) = [St (Some cl) s g]"
proof -
  let ?X = "Atomic (seqs [Atomic rx_value, Call ''c'', Opt (Lit [44]), Call ''c''])"
  let ?K = "Seq (Call ''c'') (Seq (Lit [cl]) Eps)"
  let ?body = "join (44 # ws) (map (render ws) vs) @ cl # s"
  from br have cl: "cl = 93 \<or> cl = 125" by auto
  have pre: "rx_match BASEREGEX (Suc d) (Seq (Lit [op]) (Seq (Call ''c'') R)) (St p (op # ?body) g)
      = rx_match BASEREGEX (Suc d) R (St (Some op) ?body g)" for R
    using items_start[OF wf cl, of ws s] by simp
  have "rx_match BASEREGEX (Suc d) (rx_aggregate op cl) (St p (op # ?body) g)
      = take 1 (rx_match BASEREGEX (Suc d) (Seq (Lit [op]) (Seq (Call ''c'') (Seq (StarLazy ?X) ?K)))
          (St p (op # ?body) g))"
    by (simp only: rx_aggregate_def seqs_simps rx_match.simps(13))
  also have "\<dots> = take 1 (rx_match BASEREGEX (Suc d) (Seq (StarLazy ?X) ?K) (St (Some op) ?body g))"
    by (simp only: pre)
  also have "\<dots> = [St (Some cl) s g]"
    by (simp only: aggregate_items[OF ws cl items wf]) simp
  finally show ?thesis .
qed

lemma value_run:
  assumes ws: "list_all is_space ws"
  shows "wf_value v \<Longrightarrow> vdepth v \<le> d \<Longrightarrow> stops is_tokch s \<Longrightarrow>
     rx_match BASEREGEX d rx_value (St p (render ws v @ s) g) = [St (after p (render ws v)) s g]"
proof (induction v arbitrary: d p s g)
  case (Tok t)
  then obtain d' where d: "d = Suc d'" by (cases d) auto
  from Tok obtain c t' where t: "t = c # t'" "is_tokch c" by (cases t) auto
  then have "c \<noteq> 91" "c \<noteq> 123"
    by (auto simp: is_tokch_def is_word_def is_digit_def)
  have T: "rx_match BASEREGEX d (Call ''token'') (St p (t @ s) g) = [St (after p t) s g]"
    using Tok by (simp add: d)
  have V: "rx_match BASEREGEX d (Call ''tokenVector'') (St p (t @ s) g) = []"
    using \<open>c \<noteq> 91\<close> by (intro aggregate_fail) (simp add: t)
  have O: "rx_match BASEREGEX d (Call ''object'') (St p (t @ s) g) = []"
    using \<open>c \<noteq> 123\<close> by (intro aggregate_fail) (simp add: t)
  show ?case
    by (simp add: rx_value_def T V O)
next
  case (Str b)
  then obtain d' where d: "d = Suc d'" by (cases d) auto
  have T: "rx_match BASEREGEX d (Call ''token'') (St p (34 # b @ 34 # s) g) = [St (Some 34) s g]"
    using Str by (simp add: d)
  have V: "rx_match BASEREGEX d (Call ''tokenVector'') (St p (34 # b @ 34 # s) g) = []"
    by (intro aggregate_fail) simp
  have O: "rx_match BASEREGEX d (Call ''object'') (St p (34 # b @ 34 # s) g) = []"
    by (intro aggregate_fail) simp
  show ?case
    by (simp add: rx_value_def T V O)
next
  case (Vec vs)
  from Vec.prems(2) obtain d1 where d: "d = Suc d1" and d1: "foldr max (map vdepth vs) 1 \<le> d1"
    by (cases d) auto
  then obtain d2 where d1': "d1 = Suc d2"
    using foldr_max_ge[of 1 "map vdepth vs"] by (cases d1) auto
  have items: "rx_match BASEREGEX (Suc d2) rx_value (St p (render ws v @ s) g) = [St (after p (render ws v)) s g]"
    if "v \<in> set vs" "stops is_tokch s" for v p s g
  proof -
    from that(1) Vec.prems(1) have "wf_value v" by (simp add: list_all_iff)
    moreover from that(1) d1 have "vdepth v \<le> Suc d2"
      using vdepth_elem[of v vs] by (simp add: d1')
    ultimately show ?thesis using Vec.IH[OF that(1)] that(2) by blast
  qed
  let ?st = "St p (91 # join (44 # ws) (map (render ws) vs) @ 93 # s) g"
  have "rx_match BASEREGEX (Suc d2) (rx_aggregate 91 93) ?st = [St (Some 93) s g]"
    using Vec.prems(1) by (intro aggregate_run[OF ws _ items]) simp_all
  then have V: "rx_match BASEREGEX d (Call ''tokenVector'') ?st = [St (Some 93) s g]"
    by (simp add: d d1' Call_Suc)
  have T: "rx_match BASEREGEX d (Call ''token'') ?st = []"
    by (intro token_fail) (simp add: is_tokch_def is_word_def is_digit_def)
  have O: "rx_match BASEREGEX d (Call ''object'') ?st = []"
    by (intro aggregate_fail) simp
  show ?case
    by (simp add: rx_value_def T V O)
next
  case (Obj vs)
  from Obj.prems(2) obtain d1 where d: "d = Suc d1" and d1: "foldr max (map vdepth vs) 1 \<le> d1"
    by (cases d) auto
  then obtain d2 where d1': "d1 = Suc d2"
    using foldr_max_ge[of 1 "map vdepth vs"] by (cases d1) auto
  have items: "rx_match BASEREGEX (Suc d2) rx_value (St p (render ws v @ s) g) = [St (after p (render ws v)) s g]"
    if "v \<in> set vs" "stops is_tokch s" for v p s g
  proof -
    from that(1) Obj.prems(1) have "wf_value v" by (simp add: list_all_iff)
    moreover from that(1) d1 have "vdepth v \<le> Suc d2"
      using vdepth_elem[of v vs] by (simp add: d1')
    ultimately show ?thesis using Obj.IH[OF that(1)] that(2) by blast
  qed
  let ?st = "St p (123 # join (44 # ws) (map (render ws) vs) @ 125 # s) g"
  have "rx_match BASEREGEX (Suc d2) (rx_aggregate 123 125) ?st = [St (Some 125) s g]"
    using Obj.prems(1) by (intro aggregate_run[OF ws _ items]) simp_all
  then have O: "rx_match BASEREGEX d (Call ''object'') ?st = [St (Some 125) s g]"
    by (simp add: d d1' Call_Suc)
  have T: "rx_match BASEREGEX d (Call ''token'') ?st = []"
    by (intro token_fail) (simp add: is_tokch_def is_word_def is_digit_def)
  have V: "rx_match BASEREGEX d (Call ''tokenVector'') ?st = []"
    by (intro aggregate_fail) simp
  show ?case
    by (simp add: rx_value_def T V O)
qed

section \<open>The parameter pattern on one parameter\<close>

lemma word_not_space: "is_word c \<Longrightarrow> \<not> is_space c \<and> c \<noteq> 47 \<and> c \<noteq> 61 \<and> c \<noteq> 44 \<and> c \<noteq> 40 \<and> c \<noteq> 41"
  by (auto simp: is_word_def is_digit_def is_space_def)

lemma space_facts: "is_space c \<Longrightarrow> \<not> is_word c \<and> \<not> is_tokch c \<and> c \<noteq> 47 \<and> c \<noteq> 61 \<and> c \<noteq> 44"
  by (auto simp: is_word_def is_digit_def is_space_def is_tokch_def)

lemma ident_not_starts:
  assumes "is_ident t" and "\<not> starts_with k t" and "sp \<noteq> []" and "list_all is_space sp"
    and "list_all is_word k"
  shows "\<not> starts_with k (t @ sp @ r)"
proof
  assume a: "starts_with k (t @ sp @ r)"
  show False
  proof (cases "length k \<le> length t")
    case True
    with a assms(2) show ?thesis by (simp add: starts_with_def)
  next
    case False
    then have lt: "length t < length k" by simp
    from a have "take (length k) (t @ sp @ r) = k"
      by (simp add: starts_with_def)
    then have "take (length k) (t @ sp @ r) ! length t = k ! length t"
      by simp
    with lt have "(t @ sp @ r) ! length t = k ! length t"
      by (simp only: nth_take)
    then have "hd sp = k ! length t"
      using assms(3) by (simp add: nth_append hd_conv_nth)
    moreover have "is_space (hd sp)"
      using assms(3,4) by (cases sp) simp_all
    moreover have "is_word (k ! length t)"
      using assms(5) lt by (simp add: list_all_length)
    ultimately show False using space_facts by metis
  qed
qed

lemma lit_not_starts: "\<not> starts_with k s \<Longrightarrow> lit k (St p s g) = []"
  by (simp add: lit_mismatch starts_with_def)

lemma consumed_St [simp]: "consumed (St p (w @ s) g) (St p' s g') = w"
  by (simp add: consumed_def)

lemma stops_ident:
  assumes "is_ident t" and "\<And>c. is_word c \<Longrightarrow> \<not> P c"
  shows "stops P (t @ r)"
  using assms by (cases t) (auto simp: is_ident_def)

lemma stops_spaces:
  assumes "sp \<noteq> []" and "list_all is_space sp" and "\<And>c. is_space c \<Longrightarrow> \<not> P c"
  shows "stops P (sp @ r)"
  using assms by (cases sp) auto

lemma stops_value:
  assumes "wf_value v" and "\<And>c. value_start c \<Longrightarrow> \<not> P c"
  shows "stops P (render ws v @ r)"
  using render_start[OF assms(1), of ws] assms(2) by auto

lemma stops_opt_spaces:
  assumes "list_all is_space ws" and "\<And>c. is_space c \<Longrightarrow> \<not> P c" and "stops P r"
  shows "stops P (ws @ r)"
  using assms by (cases ws) auto

lemma param_follow_stops:
  assumes "param_follow s"
  shows "stops is_word s" "stops is_tokch s" "stops (\<lambda>c. is_space c \<or> c = 47) s" "stops (\<lambda>c. c = 61) s"
  using assms by (cases s; simp add: param_follow_def is_tokch_def)+

lemma param_regex_run:
  assumes ws: "list_all is_space ws" and sp: "sp \<noteq> []" "list_all is_space sp"
    and lead: "list_all is_space lead"
    and wf: "wf_param q" and depth: "pdepth q \<le> Suc d" and follow: "param_follow s"
  shows "take (Suc 0) (rx_match BASEREGEX (Suc d) FUNTIONPARAMETERREGEX
            (St p (lead @ render_param sp ws q @ s) []))
         = [St (after p (lead @ render_param sp ws q)) s (param_caps ws q)]"
proof -
  obtain t n dv where q: "q = Param t n dv" by (cases q)
  from wf have t: "is_ident t" and n: "is_ident n" and nc: "\<not> starts_with (str ''const'') t"
    by (simp_all add: wf_param_def q)
  from t n have tn: "t \<noteq> []" "list_all is_word t" "n \<noteq> []" "list_all is_word n"
    by (simp_all add: is_ident_def)
  note fs = param_follow_stops[OF follow]
  have f1: "stops (\<lambda>c. is_space c \<or> c = 47) (t @ r)" for r
    using t word_not_space by (intro stops_ident) auto
  have f2: "lit (str ''const'') (St p' (t @ sp @ r) g') = []" for p' g' r
    using ident_not_starts[where r = r, OF t nc sp]
    by (intro lit_not_starts) (simp add: is_word_def)
  have f3: "stops is_word (sp @ r)" for r
    using sp space_facts by (intro stops_spaces) auto
  have f4: "stops (\<lambda>c. is_space c \<or> c = 47) (n @ r)" for r
    using n word_not_space by (intro stops_ident) auto
  show ?thesis
  proof (cases dv)
    case None
    have f7: "lit [61] (St p' s g') = []" for p' g'
      using fs(4) by (rule lit_stops)
    show ?thesis
      using ws sp lead tn fs f1 f2 f3 f4 f7
      by (simp add: q None render_param_def param_caps_def FUNTIONPARAMETERREGEX_def)
  next
    case (Some v)
    from wf depth have v: "wf_value v" "vdepth v \<le> Suc d"
      by (simp_all add: wf_param_def pdepth_def q Some)
    have g5: "stops is_word (ws @ 61 # r)" for r
      using ws space_facts by (intro stops_opt_spaces) (auto simp: is_word_def is_digit_def)
    have g7: "stops (\<lambda>c. is_space c \<or> c = 47) (render ws v @ r)" for r
      using v(1) value_start_facts by (intro stops_value) auto
    have g8: "rx_match BASEREGEX (Suc d) rx_value (St p' (render ws v @ s) g')
        = [St (after p' (render ws v)) s g']" for p' g'
      using value_run[OF ws v fs(2)] .
    show ?thesis
      using ws sp lead tn fs f1 f2 f3 f4 g5 g7 g8
      by (simp add: q Some render_param_def param_caps_def FUNTIONPARAMETERREGEX_def is_space_def)
  qed
qed

section \<open>The parameter pattern on a list of parameters\<close>

lemma matchAll_hit:
  "take (Suc 0) (rx_match ds d r (St p s [])) = [st] \<Longrightarrow> length (rem st) < length s \<Longrightarrow>
   matchAll ds d r False p s = caps st # matchAll ds d r False (prev st) (rem st)"
  by (subst matchAll.simps) (auto simp: take1_eq_iff prog_def)

lemma matchAll_miss:
  "rx_match ds d r (St p (c # cs) []) = [] \<Longrightarrow>
   matchAll ds d r False p (c # cs) = matchAll ds d r False (Some c) cs"
  by (subst matchAll.simps) simp

lemma matchAll_none:
  "rx_match ds d r (St p [] []) = [] \<Longrightarrow> matchAll ds d r False p [] = []"
  by (subst matchAll.simps) simp

text \<open>Positions at which the pattern has no match are passed over by the scan.\<close>

lemma matchAll_skip:
  assumes "\<And>u1 u2. u = u1 @ u2 \<Longrightarrow> u2 \<noteq> [] \<Longrightarrow> rx_match ds d r (St (after p u1) (u2 @ v) []) = []"
  shows "matchAll ds d r False p (u @ v) = matchAll ds d r False (after p u) v"
  using assms
proof (induction u arbitrary: p)
  case Nil
  then show ?case by simp
next
  case (Cons c u)
  have "rx_match ds d r (St p (c # u @ v) []) = []"
    using Cons.prems[of "[]" "c # u"] by simp
  then have "matchAll ds d r False p ((c # u) @ v) = matchAll ds d r False (Some c) (u @ v)"
    by (simp add: matchAll_miss)
  also have "\<dots> = matchAll ds d r False (after (Some c) u) v"
  proof (rule Cons.IH)
    fix u1 u2
    assume "u = u1 @ u2" "u2 \<noteq> []"
    then show "rx_match ds d r (St (after (Some c) u1) (u2 @ v) []) = []"
      using Cons.prems[of "c # u1" u2] by simp
  qed
  finally show ?case by simp
qed

lemma param_regex_fail:
  "rx_match BASEREGEX (Suc d) FUNTIONPARAMETERREGEX (St p [] g) = []"
  "rx_match BASEREGEX (Suc d) FUNTIONPARAMETERREGEX (St p (44 # r) g) = []"
  by (simp_all add: FUNTIONPARAMETERREGEX_def is_space_def is_word_def is_digit_def)

lemma param_follow_simps [simp]:
  "param_follow []" "param_follow (44 # r)" "param_follow (41 # r)"
  by (simp_all add: param_follow_def is_tokch_def is_word_def is_digit_def is_space_def)

lemma render_params_Cons:
  "render_params sp ws (q # qs) =
     render_param sp ws q @ (if qs = [] then [] else 44 # ws @ render_params sp ws qs)"
  by (simp add: render_params_def join_Cons)

lemma length_render_param: "wf_param q \<Longrightarrow> 0 < length (render_param sp ws q)"
  by (simp add: render_param_def wf_param_def is_ident_def)

lemma matchAll_params_nonempty:
  assumes ws: "list_all is_space ws" and sp: "sp \<noteq> []" "list_all is_space sp"
  shows "qs \<noteq> [] \<Longrightarrow> list_all wf_param qs \<Longrightarrow> list_all (\<lambda>q. pdepth q \<le> Suc d) qs \<Longrightarrow>
         list_all is_space lead \<Longrightarrow>
         matchAll BASEREGEX (Suc d) FUNTIONPARAMETERREGEX False p (lead @ render_params sp ws qs)
           = map (param_caps ws) qs"
proof (induction qs arbitrary: p lead rule: list_nonempty_induct)
  case (single q)
  let ?st = "St (after p (lead @ render_param sp ws q)) [] (param_caps ws q)"
  have "take (Suc 0) (rx_match BASEREGEX (Suc d) FUNTIONPARAMETERREGEX
            (St p (lead @ render_param sp ws q @ []) [])) = [?st]"
    using single.prems by (intro param_regex_run[OF ws sp]) simp_all
  then have hit: "take (Suc 0) (rx_match BASEREGEX (Suc d) FUNTIONPARAMETERREGEX
            (St p (lead @ render_param sp ws q) [])) = [?st]"
    by simp
  have "matchAll BASEREGEX (Suc d) FUNTIONPARAMETERREGEX False p (lead @ render_param sp ws q)
      = param_caps ws q # matchAll BASEREGEX (Suc d) FUNTIONPARAMETERREGEX False (prev ?st) []"
    using matchAll_hit[OF hit] length_render_param[of q sp ws] single.prems by simp
  moreover have "matchAll BASEREGEX (Suc d) FUNTIONPARAMETERREGEX False (prev ?st) [] = []"
    by (intro matchAll_none param_regex_fail)
  ultimately show ?case
    by (simp add: render_params_Cons)
next
  case (cons q qs)
  let ?R = "render_params sp ws qs"
  let ?st = "St (after p (lead @ render_param sp ws q)) (44 # ws @ ?R) (param_caps ws q)"
  from cons.prems have wfq: "wf_param q" "pdepth q \<le> Suc d" and rest: "list_all wf_param qs"
    "list_all (\<lambda>q. pdepth q \<le> Suc d) qs"
    by simp_all
  have "take (Suc 0) (rx_match BASEREGEX (Suc d) FUNTIONPARAMETERREGEX
            (St p (lead @ render_param sp ws q @ 44 # ws @ ?R) [])) = [?st]"
    using cons.prems(3) wfq
    by (intro param_regex_run[OF ws sp]) simp_all
  then have hit: "take (Suc 0) (rx_match BASEREGEX (Suc d) FUNTIONPARAMETERREGEX
            (St p ((lead @ render_param sp ws q) @ 44 # ws @ ?R) [])) = [?st]"
    by simp
  have step1: "matchAll BASEREGEX (Suc d) FUNTIONPARAMETERREGEX False p (lead @ render_param sp ws q @ 44 # ws @ ?R)
      = param_caps ws q # matchAll BASEREGEX (Suc d) FUNTIONPARAMETERREGEX False (prev ?st) (44 # ws @ ?R)"
    using matchAll_hit[OF hit] length_render_param[OF wfq(1), of sp ws] by simp
  have "matchAll BASEREGEX (Suc d) FUNTIONPARAMETERREGEX False (prev ?st) (44 # ws @ ?R)
      = matchAll BASEREGEX (Suc d) FUNTIONPARAMETERREGEX False (Some 44) (ws @ ?R)"
    by (intro matchAll_miss param_regex_fail)
  also have "\<dots> = map (param_caps ws) qs"
    using rest ws by (intro cons.IH) simp_all
  finally show ?case
    using step1 cons.hyps by (simp add: render_params_Cons)
qed

lemma cap_param_caps [simp]:
  "cap (param_caps ws q) ''type'' = ptype q"
  "cap (param_caps ws q) ''name'' = pname q"
  "cap (param_caps ws q) ''defaultValue'' = (case pdefault q of None \<Rightarrow> [] | Some v \<Rightarrow> render ws v)"
  by (simp_all add: cap_def param_caps_def split: option.splits)

lemma paramMembers_rendered:
  assumes "list_all is_space ws" and "sp \<noteq> []" and "list_all is_space sp"
    and "list_all wf_param qs" and "list_all (\<lambda>q. pdepth q \<le> Suc d) qs"
  shows "paramMembers conv (Suc d) (render_params sp ws qs) = map (param_record conv ws) qs"
proof (cases "qs = []")
  case True
  have "matchAll BASEREGEX (Suc d) FUNTIONPARAMETERREGEX False None [] = []"
    by (intro matchAll_none param_regex_fail)
  with True show ?thesis
    by (simp add: paramMembers_def render_params_def)
next
  case False
  from matchAll_params_nonempty[OF assms(1-3) False assms(4,5), of "[]" None]
  show ?thesis
    by (simp add: paramMembers_def param_record_def)
qed

section \<open>The function pattern\<close>

lemma rx_param_run:
  assumes ws: "list_all is_space ws" and sp: "sp \<noteq> []" "list_all is_space sp"
    and lead: "list_all is_space lead"
    and wf: "wf_param q" and depth: "pdepth q \<le> Suc d" and follow: "param_follow s"
  shows "rx_match BASEREGEX (Suc (Suc d)) (Call ''param'') (St p (lead @ render_param sp ws q @ s) g)
         = [St (after p (lead @ render_param sp ws q)) s g]"
proof -
  obtain t n dv where q: "q = Param t n dv" by (cases q)
  from wf have t: "is_ident t" and n: "is_ident n" and nc: "\<not> starts_with (str ''const'') t"
    by (simp_all add: wf_param_def q)
  from t n have tn: "t \<noteq> []" "list_all is_word t" "n \<noteq> []" "list_all is_word n"
    by (simp_all add: is_ident_def)
  note fs = param_follow_stops[OF follow]
  have f1: "stops (\<lambda>c. is_space c \<or> c = 47) (t @ r)" for r
    using t word_not_space by (intro stops_ident) auto
  have f2: "lit (str ''const'') (St p' (t @ sp @ r) g') = []" for p' g' r
    using ident_not_starts[where r = r, OF t nc sp]
    by (intro lit_not_starts) (simp add: is_word_def)
  have f3: "stops is_word (sp @ r)" for r
    using sp space_facts by (intro stops_spaces) auto
  have f4: "stops (\<lambda>c. is_space c \<or> c = 47) (n @ r)" for r
    using n word_not_space by (intro stops_ident) auto
  show ?thesis
  proof (cases dv)
    case None
    have f7: "lit [61] (St p' s g') = []" for p' g'
      using fs(4) by (rule lit_stops)
    show ?thesis
      using ws sp lead tn fs f1 f2 f3 f4 f7
      by (simp add: q None render_param_def Call_Suc[of _ _ "''param''"] rx_param_def)
  next
    case (Some v)
    from wf depth have v: "wf_value v" "vdepth v \<le> Suc d"
      by (simp_all add: wf_param_def pdepth_def q Some)
    have g5: "stops is_word (ws @ 61 # r)" for r
      using ws space_facts by (intro stops_opt_spaces) (auto simp: is_word_def is_digit_def)
    have g7: "stops (\<lambda>c. is_space c \<or> c = 47) (render ws v @ r)" for r
      using v(1) value_start_facts by (intro stops_value) auto
    have g8: "rx_match BASEREGEX (Suc d) rx_value (St p' (render ws v @ s) g')
        = [St (after p' (render ws v)) s g']" for p' g'
      using value_run[OF ws v fs(2)] .
    show ?thesis
      using ws sp lead tn fs f1 f2 f3 f4 g5 g7 g8
      by (simp add: q Some render_param_def Call_Suc[of _ _ "''param''"] rx_param_def is_space_def)
  qed
qed

lemma rx_param_fail:
  "rx_match BASEREGEX (Suc (Suc d)) (Call ''param'') (St p (41 # r) g) = []"
  by (simp add: Call_Suc[of _ _ "''param''"] rx_param_def is_space_def is_word_def is_digit_def)

lemma paramLoop_end:
  "rx_match BASEREGEX (Suc (Suc d)) rx_paramLoop (St p (41 # r) g) = [St p (41 # r) g]"
  unfolding rx_paramLoop_def
  by (subst rx_match.simps(11)) (simp add: rx_param_fail)

lemma paramLoop_run:
  assumes ws: "list_all is_space ws" and sp: "sp \<noteq> []" "list_all is_space sp"
  shows "qs \<noteq> [] \<Longrightarrow> list_all wf_param qs \<Longrightarrow> list_all (\<lambda>q. pdepth q \<le> Suc d) qs \<Longrightarrow>
         list_all is_space lead \<Longrightarrow>
         take (Suc 0) (rx_match BASEREGEX (Suc (Suc d)) rx_paramLoop
            (St p (lead @ render_params sp ws qs @ 41 # r) g))
           = [St (after p (lead @ render_params sp ws qs)) (41 # r) g]"
proof (induction qs arbitrary: p lead rule: list_nonempty_induct)
  case (single q)
  let ?st1 = "St (after p (lead @ render_param sp ws q)) (41 # r) g"
  have P: "rx_match BASEREGEX (Suc (Suc d)) (Call ''param'') (St p (lead @ render_param sp ws q @ 41 # r) g)
      = [?st1]"
    using single.prems by (intro rx_param_run[OF ws sp]) simp_all
  have "prog (St p (lead @ render_param sp ws q @ 41 # r) g) ?st1"
    using length_render_param[of q sp ws] single.prems by (simp add: prog_def)
  then have "rx_match BASEREGEX (Suc (Suc d)) rx_paramLoop (St p (lead @ render_param sp ws q @ 41 # r) g)
      = rx_match BASEREGEX (Suc (Suc d)) rx_paramLoop ?st1 @ [St p (lead @ render_param sp ws q @ 41 # r) g]"
    unfolding rx_paramLoop_def
    by (subst rx_match.simps(11)) (simp add: P)
  then show ?case
    by (simp add: paramLoop_end render_params_Cons)
next
  case (cons q qs)
  let ?R = "render_params sp ws qs"
  let ?st0 = "St p (lead @ render_param sp ws q @ 44 # ws @ ?R @ 41 # r) g"
  let ?st1 = "St (after p (lead @ render_param sp ws q)) (44 # ws @ ?R @ 41 # r) g"
  let ?stc = "St (Some 44) (ws @ ?R @ 41 # r) g"
  from cons.prems have wfq: "wf_param q" "pdepth q \<le> Suc d" and rest: "list_all wf_param qs"
    "list_all (\<lambda>q. pdepth q \<le> Suc d) qs"
    by simp_all
  have P: "rx_match BASEREGEX (Suc (Suc d)) (Call ''param'') ?st0 = [?st1]"
    using cons.prems(3) wfq by (intro rx_param_run[OF ws sp]) simp_all
  from cons.hyps obtain q2 qs2 where qs: "qs = q2 # qs2" by (cases qs) auto
  let ?tail = "(if qs2 = [] then [] else 44 # ws @ render_params sp ws qs2) @ 41 # r"
  from rest qs have wfq2: "wf_param q2" "pdepth q2 \<le> Suc d" by simp_all
  have R: "?R @ 41 # r = render_param sp ws q2 @ ?tail"
    by (simp add: qs render_params_Cons)
  have "rx_match BASEREGEX (Suc (Suc d)) (Call ''param'') (St (Some 44) (ws @ render_param sp ws q2 @ ?tail) g)
      = [St (after (Some 44) (ws @ render_param sp ws q2)) ?tail g]"
    using wfq2 ws by (intro rx_param_run[OF ws sp]) auto
  then have look: "rx_match BASEREGEX (Suc (Suc d)) (Call ''param'') ?stc \<noteq> []"
    by (simp add: R)
  have "prog ?st0 ?stc"
    by (simp add: prog_def)
  then have "rx_match BASEREGEX (Suc (Suc d)) rx_paramLoop ?st0
      = rx_match BASEREGEX (Suc (Suc d)) rx_paramLoop ?stc @ [?st0]"
    unfolding rx_paramLoop_def
    by (subst rx_match.simps(11)) (simp add: P look)
  moreover have "take (Suc 0) (rx_match BASEREGEX (Suc (Suc d)) rx_paramLoop ?stc)
      = [St (after (Some 44) (ws @ ?R)) (41 # r) g]"
    using rest ws by (intro cons.IH) simp_all
  ultimately show ?case
    using cons.hyps by (auto simp: render_params_Cons take1_eq_iff)
qed

lemma paramLoop_rendered:
  assumes "list_all is_space ws" and "sp \<noteq> []" and "list_all is_space sp"
    and "list_all wf_param qs" and "list_all (\<lambda>q. pdepth q \<le> Suc d) qs"
  shows "take (Suc 0) (rx_match BASEREGEX (Suc (Suc d)) rx_paramLoop
            (St p (render_params sp ws qs @ 41 # r) g))
           = [St (after p (render_params sp ws qs)) (41 # r) g]"
proof (cases "qs = []")
  case True
  then show ?thesis
    by (simp add: paramLoop_end render_params_def)
next
  case False
  from paramLoop_run[OF assms(1-3) False assms(4,5), of "[]" p r g]
  show ?thesis by simp
qed

lemma comment_star_none:
  assumes "stops (\<lambda>c. c = 47) s"
  shows "rx_match BASEREGEX d (Star (Call ''comment'')) (St p s g) = [St p s g]"
  using assms by (subst rx_match.simps(11)) simp

lemma function_regex_header:
  assumes ws: "list_all is_space ws" and sp: "sp \<noteq> []" "list_all is_space sp"
    and wf: "wf_fdecl f" and depth: "list_all (\<lambda>q. pdepth q \<le> Suc d) (fparams f)"
    and bol: "p = None \<or> p = Some 10"
    and x: "\<not> is_space x" "x \<noteq> 47" and gap: "list_all is_space gap"
  shows "rx_match BASEREGEX (Suc (Suc d)) FUNCTIONDECLARATIONREGEX
           (St p (render_header sp ws f @ gap @ x # rest) [])
         = (if x = 59 then [St (Some 59) rest (fdecl_caps sp ws f)] else [])"
proof -
  obtain t n qs where f: "f = FDecl t n qs" by (cases f)
  from wf have t: "is_ident t" and n: "is_ident n" and qs: "list_all wf_param qs"
    and kw: "\<not> starts_with (str ''return'') t" "\<not> starts_with (str ''if'') t"
      "\<not> starts_with (str ''else'') t" "\<not> starts_with (str ''switch'') t"
    by (simp_all add: wf_fdecl_def f reserved_heads_def)
  from t n have tn: "t \<noteq> []" "list_all is_word t" "n \<noteq> []" "list_all is_word n"
    by (simp_all add: is_ident_def)
  have b: "at_bol (St p (t @ r) g)" for r g
    using bol tn(1) by (auto simp: at_bol_def)
  have f0: "stops (\<lambda>c. c = 47) (t @ r)" for r
    using t word_not_space by (intro stops_ident) auto
  have f1: "stops (\<lambda>c. is_space c \<or> c = 47) (n @ r)" for r
    using n word_not_space by (intro stops_ident) auto
  have k1: "lit (str ''return'') (St p' (t @ sp @ r) g') = []" for p' g' r
    using ident_not_starts[where r = r, OF t kw(1) sp]
    by (intro lit_not_starts) (simp add: is_word_def)
  have k2: "lit (str ''if'') (St p' (t @ sp @ r) g') = []" for p' g' r
    using ident_not_starts[where r = r, OF t kw(2) sp]
    by (intro lit_not_starts) (simp add: is_word_def)
  have k3: "lit (str ''else'') (St p' (t @ sp @ r) g') = []" for p' g' r
    using ident_not_starts[where r = r, OF t kw(3) sp]
    by (intro lit_not_starts) (simp add: is_word_def)
  have k4: "lit (str ''switch'') (St p' (t @ sp @ r) g') = []" for p' g' r
    using ident_not_starts[where r = r, OF t kw(4) sp]
    by (intro lit_not_starts) (simp add: is_word_def)
  have f3: "stops is_word (sp @ r)" for r
    using sp space_facts by (intro stops_spaces) auto
  have loop: "take (Suc 0) (rx_match BASEREGEX (Suc (Suc d)) rx_paramLoop
            (St p' (render_params sp ws qs @ 41 # r) g'))
           = [St (after p' (render_params sp ws qs)) (41 # r) g']" for p' g' r
    using depth by (intro paramLoop_rendered[OF ws sp qs]) (simp add: f)
  have cs: "rx_match BASEREGEX (Suc (Suc d)) (Star (Call ''comment'')) (St p' (t @ r) g')
      = [St p' (t @ r) g']" for p' g' r
    by (intro comment_star_none f0)
  have paren: "\<not> is_space 40" "\<not> is_word 40"
    by (simp_all add: is_space_def is_word_def is_digit_def)
  show ?thesis
    unfolding FUNCTIONDECLARATIONREGEX_def rx_paramLoop_def[symmetric]
    using ws sp tn x b f1 k1 k2 k3 k4 f3 loop cs paren gap
    by (simp add: f render_header_def fdecl_caps_def)
qed

section \<open>Files\<close>

lemma no_bol_no_match:
  "\<not> at_bol st \<Longrightarrow> rx_match BASEREGEX d FUNCTIONDECLARATIONREGEX st = []"
  by (simp add: FUNCTIONDECLARATIONREGEX_def)

lemma function_regex_Nil:
  "rx_match BASEREGEX d FUNCTIONDECLARATIONREGEX (St p [] g) = []"
  by (simp add: FUNCTIONDECLARATIONREGEX_def comment_star_none)

text \<open>A rendered header has no line feed when its layout has none.\<close>

lemma word_no_lf: "list_all is_word w \<Longrightarrow> 10 \<notin> set w"
  by (auto simp: list_all_iff is_word_def is_digit_def)

lemma join_no_lf:
  "10 \<notin> set sep \<Longrightarrow> (\<And>x. x \<in> set xs \<Longrightarrow> 10 \<notin> set x) \<Longrightarrow> 10 \<notin> set (join sep xs)"
  by (induction sep xs rule: join.induct) auto

lemma render_no_lf: "10 \<notin> set ws \<Longrightarrow> wf_value v \<Longrightarrow> 10 \<notin> set (render ws v)"
proof (induction v)
  case (Tok t)
  then show ?case by (auto simp: list_all_iff is_tokch_def is_word_def is_digit_def)
next
  case (Str b)
  then show ?case by (auto simp: list_all_iff is_strch_def)
next
  case (Vec vs)
  then have "10 \<notin> set (join (44 # ws) (map (render ws) vs))"
    by (intro join_no_lf) (auto simp: list_all_iff)
  then show ?case by simp
next
  case (Obj vs)
  then have "10 \<notin> set (join (44 # ws) (map (render ws) vs))"
    by (intro join_no_lf) (auto simp: list_all_iff)
  then show ?case by simp
qed

lemma render_param_no_lf:
  "10 \<notin> set sp \<Longrightarrow> 10 \<notin> set ws \<Longrightarrow> wf_param q \<Longrightarrow> 10 \<notin> set (render_param sp ws q)"
  by (cases q; cases "pdefault q")
     (auto simp: render_param_def wf_param_def is_ident_def render_no_lf dest: word_no_lf)

lemma render_params_no_lf:
  "10 \<notin> set sp \<Longrightarrow> 10 \<notin> set ws \<Longrightarrow> list_all wf_param qs \<Longrightarrow> 10 \<notin> set (render_params sp ws qs)"
  unfolding render_params_def
  by (intro join_no_lf) (auto simp: list_all_iff render_param_no_lf)

lemma render_header_no_lf:
  "10 \<notin> set sp \<Longrightarrow> 10 \<notin> set ws \<Longrightarrow> wf_fdecl f \<Longrightarrow> 10 \<notin> set (render_header sp ws f)"
  by (auto simp: render_header_def wf_fdecl_def is_ident_def render_params_no_lf dest: word_no_lf)

lemma after_last: "u \<noteq> [] \<Longrightarrow> after p u = Some (last u)"
  by (induction u arbitrary: p) auto

lemma skip_line_feed:
  "matchAll BASEREGEX d FUNCTIONDECLARATIONREGEX False (Some 59) (10 # X)
     = matchAll BASEREGEX d FUNCTIONDECLARATIONREGEX False (Some 10) X"
  by (intro matchAll_miss no_bol_no_match) (simp add: at_bol_def)

lemma prototype_line:
  assumes ws: "list_all is_space ws" and sp: "sp \<noteq> []" "list_all is_space sp"
    and wf: "wf_fdecl f" and depth: "list_all (\<lambda>q. pdepth q \<le> Suc d) (fparams f)"
    and bol: "p = None \<or> p = Some 10"
  shows "matchAll BASEREGEX (Suc (Suc d)) FUNCTIONDECLARATIONREGEX False p
           (render_item sp ws (Prototype f) @ 10 # X)
         = fdecl_caps sp ws f # matchAll BASEREGEX (Suc (Suc d)) FUNCTIONDECLARATIONREGEX False (Some 10) X"
proof -
  let ?st = "St (Some 59) (10 # X) (fdecl_caps sp ws f)"
  have "rx_match BASEREGEX (Suc (Suc d)) FUNCTIONDECLARATIONREGEX
           (St p (render_header sp ws f @ 59 # 10 # X) []) = [?st]"
    using function_regex_header[OF ws sp wf depth bol, of 59 "[]" "10 # X"]
    by (simp add: is_space_def)
  then have "take (Suc 0) (rx_match BASEREGEX (Suc (Suc d)) FUNCTIONDECLARATIONREGEX
           (St p (render_header sp ws f @ 59 # 10 # X) [])) = [?st]"
    by simp
  from matchAll_hit[OF this] show ?thesis
    by (simp add: skip_line_feed)
qed

text \<open>Every match of the function pattern ends with a semicolon.\<close>

lemma seqs_last:
  "rs \<noteq> [] \<Longrightarrow> st' \<in> set (rx_match ds d (seqs rs) st) \<Longrightarrow>
   \<exists>st1. st' \<in> set (rx_match ds d (last rs) st1)"
proof (induction rs arbitrary: st)
  case Nil
  then show ?case by simp
next
  case (Cons a rs)
  show ?case
  proof (cases "rs = []")
    case True
    with Cons.prems(2) show ?thesis by auto
  next
    case False
    from Cons.prems(2) obtain st1 where "st' \<in> set (rx_match ds d (seqs rs) st1)"
      by auto
    from Cons.IH[OF False this] False show ?thesis by simp
  qed
qed

lemma function_regex_semicolon:
  assumes "st' \<in> set (rx_match BASEREGEX d FUNCTIONDECLARATIONREGEX st)"
  shows "prev st' = Some 59"
proof -
  from seqs_last[OF _ assms[unfolded FUNCTIONDECLARATIONREGEX_def]]
  obtain st1 where "st' \<in> set (lit [59] st1)"
    by auto
  then show ?thesis
    by (cases "rem st1") (auto split: if_splits)
qed

lemma function_regex_nonstart:
  "\<not> opens_line c \<Longrightarrow> rx_match BASEREGEX d FUNCTIONDECLARATIONREGEX (St p (c # cs) g) = []"
  by (simp add: FUNCTIONDECLARATIONREGEX_def comment_star_none opens_line_def)

lemma indented_line_start:
  "indented (b1 @ c # b2) \<Longrightarrow> b1 \<noteq> [] \<Longrightarrow> last b1 = 10 \<Longrightarrow> \<not> opens_line c"
proof (induction b1)
  case Nil
  then show ?case by simp
next
  case (Cons a b1)
  show ?case
  proof (cases b1)
    case Nil
    with Cons.prems show ?thesis by simp
  next
    case (Cons a' b1')
    with Cons.prems have "indented (b1 @ c # b2)" "last b1 = 10"
      by simp_all
    with Cons.IH Cons show ?thesis by simp
  qed
qed

lemma function_regex_line_comment:
  "rx_match BASEREGEX d FUNCTIONDECLARATIONREGEX (St p (47 # 47 # r) g) = []"
proof -
  have c: "rx_match BASEREGEX d (Call ''comment'') (St p (47 # 47 # r) g) = []"
    by (cases d) (simp_all add: Call_Suc rx_comment_def)
  have "rx_match BASEREGEX d (Star (Call ''comment'')) (St p (47 # 47 # r) g) = [St p (47 # 47 # r) g]"
    by (subst rx_match.simps(11)) (simp add: c)
  then show ?thesis
    by (simp add: FUNCTIONDECLARATIONREGEX_def is_word_def is_digit_def)
qed

lemma quiet_line_start:
  assumes "quiet l"
  shows "rx_match BASEREGEX d FUNCTIONDECLARATIONREGEX (St p (l @ 10 # X) g) = []"
proof (cases l)
  case Nil
  then show ?thesis
    by (simp add: function_regex_nonstart opens_line_def is_word_def is_digit_def)
next
  case (Cons c cs)
  show ?thesis
  proof (cases "opens_line c")
    case False
    then show ?thesis by (simp add: Cons function_regex_nonstart)
  next
    case True
    with assms Cons obtain r where "l = 47 # 47 # r"
      by (cases cs) (auto simp: quiet_def starts_with_def)
    then show ?thesis by (simp add: function_regex_line_comment)
  qed
qed

text \<open>A constant is not taken for a function: its name is not followed by a parenthesis.\<close>

lemma function_regex_constant:
  assumes t: "is_ident t" and n: "is_ident n"
    and sp: "sp \<noteq> []" "list_all is_space sp" and ws: "list_all is_space ws"
  shows "rx_match BASEREGEX (Suc d) FUNCTIONDECLARATIONREGEX (St p (t @ sp @ n @ ws @ 61 # r) g) = []"
proof -
  from t n have tn: "t \<noteq> []" "list_all is_word t" "n \<noteq> []" "list_all is_word n"
    by (simp_all add: is_ident_def)
  have f0: "stops (\<lambda>c. c = 47) (t @ r)" for r
    using t word_not_space by (intro stops_ident) auto
  have f1: "stops (\<lambda>c. is_space c \<or> c = 47) (n @ r)" for r
    using n word_not_space by (intro stops_ident) auto
  have f3: "stops is_word (sp @ r)" for r
    using sp space_facts by (intro stops_spaces) auto
  have f4: "stops is_word (ws @ 61 # r)" for r
    using ws space_facts by (intro stops_opt_spaces) (auto simp: is_word_def is_digit_def)
  have cs: "rx_match BASEREGEX (Suc d) (Star (Call ''comment'')) (St p' (t @ r) g')
      = [St p' (t @ r) g']" for p' g' r
    by (intro comment_star_none f0)
  have eq: "\<not> is_space 61" "\<not> is_word 61"
    by (simp_all add: is_space_def is_word_def is_digit_def)
  show ?thesis
    unfolding FUNCTIONDECLARATIONREGEX_def
    using ws sp tn f1 f3 f4 cs eq
    by simp
qed

text \<open>A line without a match at its start is passed over.\<close>

lemma line_skip:
  assumes "10 \<notin> set l"
    and "rx_match BASEREGEX d FUNCTIONDECLARATIONREGEX (St p (l @ 10 # X) []) = []"
  shows "matchAll BASEREGEX d FUNCTIONDECLARATIONREGEX False p (l @ 10 # X)
       = matchAll BASEREGEX d FUNCTIONDECLARATIONREGEX False (Some 10) X"
proof -
  have "matchAll BASEREGEX d FUNCTIONDECLARATIONREGEX False p ((l @ [10]) @ X)
      = matchAll BASEREGEX d FUNCTIONDECLARATIONREGEX False (after p (l @ [10])) X"
  proof (rule matchAll_skip)
    fix u1 u2 :: "cunit list"
    assume u: "l @ [10] = u1 @ u2" and u2: "u2 \<noteq> []"
    show "rx_match BASEREGEX d FUNCTIONDECLARATIONREGEX (St (after p u1) (u2 @ X) []) = []"
    proof (cases "u1 = []")
      case True
      with u have "u2 = l @ [10]" by simp
      with assms(2) True show ?thesis by simp
    next
      case False
      from u2 obtain u2' x where "u2 = u2' @ [x]"
        by (cases u2 rule: rev_cases) auto
      with u have "l @ [10] = (u1 @ u2') @ [x]" by simp
      then have "l = u1 @ u2'" by (simp only: append1_eq_conv)
      with assms(1) False have "last u1 \<noteq> 10"
        by (metis last_in_set Un_iff set_append)
      with False have "\<not> at_bol (St (after p u1) (u2 @ X) [])"
        by (simp add: at_bol_def after_last)
      then show ?thesis by (rule no_bol_no_match)
    qed
  qed
  then show ?thesis
    by (simp add: after_last)
qed

lemma definition_line:
  assumes ws: "list_all is_space ws" "10 \<notin> set ws" and sp: "sp \<noteq> []" "list_all is_space sp" "10 \<notin> set sp"
    and wf: "wf_fdecl f" and depth: "list_all (\<lambda>q. pdepth q \<le> Suc d) (fparams f)"
    and gap: "list_all is_space gap" and block: "indented (gap @ 123 # body @ [125])"
    and bol: "p = None \<or> p = Some 10"
  shows "matchAll BASEREGEX (Suc (Suc d)) FUNCTIONDECLARATIONREGEX False p
           (render_item sp ws (Definition f gap body) @ 10 # X)
         = matchAll BASEREGEX (Suc (Suc d)) FUNCTIONDECLARATIONREGEX False (Some 10) X"
proof -
  define h where "h = render_header sp ws f"
  define b where "b = gap @ 123 # body @ [125]"
  have nolf: "10 \<notin> set h"
    unfolding h_def by (rule render_header_no_lf[OF sp(3) ws(2) wf])
  have b: "b \<noteq> []" "last b = 125" "indented b"
    using block by (simp_all add: b_def)
  have "matchAll BASEREGEX (Suc (Suc d)) FUNCTIONDECLARATIONREGEX False p ((h @ b @ [10]) @ X)
      = matchAll BASEREGEX (Suc (Suc d)) FUNCTIONDECLARATIONREGEX False (after p (h @ b @ [10])) X"
  proof (rule matchAll_skip)
    fix u1 u2 :: "cunit list"
    assume u: "h @ b @ [10] = u1 @ u2" and u2: "u2 \<noteq> []"
    show "rx_match BASEREGEX (Suc (Suc d)) FUNCTIONDECLARATIONREGEX (St (after p u1) (u2 @ X) []) = []"
    proof (cases "u1 = []")
      case True
      with u have "u2 @ X = render_header sp ws f @ gap @ 123 # (body @ [125, 10] @ X)"
        by (simp add: h_def b_def)
      then show ?thesis
        using function_regex_header[OF ws(1) sp(1,2) wf depth bol _ _ gap, of 123 "body @ [125, 10] @ X"] True
        by (simp add: is_space_def)
    next
      case False
      show ?thesis
      proof (cases "last u1 = 10")
        case False
        with \<open>u1 \<noteq> []\<close> have "\<not> at_bol (St (after p u1) (u2 @ X) [])"
          by (simp add: at_bol_def after_last)
        then show ?thesis by (rule no_bol_no_match)
      next
        case True
        from u2 obtain c cs where c: "u2 = c # cs" by (cases u2) auto
        from u consider (inside) k where "h = u1 @ k"
          | (later) k where "u1 = h @ k" "b @ [10] = k @ u2"
          by (auto simp: append_eq_append_conv2)
        then show ?thesis
        proof cases
          case inside
          with \<open>u1 \<noteq> []\<close> True have "10 \<in> set h"
            by (metis last_in_set Un_iff set_append)
          with nolf show ?thesis ..
        next
          case later
          have k: "k \<noteq> []"
          proof
            assume "k = []"
            with later(1) \<open>u1 \<noteq> []\<close> True have "10 \<in> set h"
              by (metis append_Nil2 last_in_set)
            with nolf show False ..
          qed
          with later(1) True have lastk: "last k = 10" by simp
          from later(2) c have eq: "b @ [10] = k @ c # cs" by simp
          have "\<exists>cs'. b = k @ c # cs'"
          proof (cases cs rule: rev_cases)
            case Nil
            with eq have "b @ [10] = k @ [c]" by simp
            then have "b = k" by simp
            with lastk b(2) show ?thesis by simp
          next
            case (snoc cs' x)
            with eq have "b @ [10] = (k @ c # cs') @ [x]" by simp
            then have "b = k @ c # cs'" by (simp only: append1_eq_conv)
            then show ?thesis ..
          qed
          then obtain cs' where "b = k @ c # cs'" ..
          with b(3) have "indented (k @ c # cs')" by simp
          from indented_line_start[OF this k lastk] have "\<not> opens_line c" .
          then show ?thesis
            unfolding c by (simp add: function_regex_nonstart)
        qed
      qed
    qed
  qed
  moreover have "after p (h @ b @ [10]) = Some 10"
    by (simp add: after_last)
  ultimately show ?thesis
    by (simp add: h_def b_def)
qed

lemma matchAll_file:
  assumes ws: "list_all is_space ws" "10 \<notin> set ws" and sp: "sp \<noteq> []" "list_all is_space sp" "10 \<notin> set sp"
  shows "list_all wf_item its \<Longrightarrow>
         list_all (\<lambda>i. list_all (\<lambda>q. pdepth q \<le> Suc d) (item_params i)) its \<Longrightarrow>
         p = None \<or> p = Some 10 \<Longrightarrow>
         matchAll BASEREGEX (Suc (Suc d)) FUNCTIONDECLARATIONREGEX False p (render_file sp ws its)
           = map (fdecl_caps sp ws) (prototypes its)"
proof (induction its arbitrary: p)
  case Nil
  show ?case
    by (simp add: render_file_def matchAll_none function_regex_Nil)
next
  case (Cons i its)
  have unfold_file: "render_file sp ws (j # its) = render_item sp ws j @ 10 # render_file sp ws its" for j
    by (simp add: render_file_def)
  have IH: "matchAll BASEREGEX (Suc (Suc d)) FUNCTIONDECLARATIONREGEX False (Some 10) (render_file sp ws its)
      = map (fdecl_caps sp ws) (prototypes its)"
    using Cons.prems by (intro Cons.IH) simp_all
  show ?case
  proof (cases i)
    case (Prototype f)
    with Cons.prems have "wf_fdecl f" "list_all (\<lambda>q. pdepth q \<le> Suc d) (fparams f)"
      by simp_all
    from prototype_line[OF ws(1) sp(1,2) this Cons.prems(3)] IH show ?thesis
      by (simp only: unfold_file Prototype prototypes.simps list.map)
  next
    case (Definition f gap body)
    with Cons.prems have "wf_fdecl f" "list_all (\<lambda>q. pdepth q \<le> Suc d) (fparams f)"
      "list_all is_space gap" "indented (gap @ 123 # body @ [125])"
      by simp_all
    from definition_line[OF ws sp this Cons.prems(3)] IH show ?thesis
      by (simp only: unfold_file Definition prototypes.simps)
  next
    case (ConstantDecl t n v)
    with Cons.prems have wfc: "is_ident t" "is_ident n" "wf_value v"
      by simp_all
    have nolf: "10 \<notin> set (render_item sp ws (ConstantDecl t n v))"
      using wfc ws(2) sp(3) by (auto simp: is_ident_def render_no_lf dest: word_no_lf)
    have start: "rx_match BASEREGEX (Suc (Suc d)) FUNCTIONDECLARATIONREGEX
        (St p (render_item sp ws (ConstantDecl t n v) @ 10 # render_file sp ws its) []) = []"
      using function_regex_constant[OF wfc(1,2) sp(1,2) ws(1)] by simp
    from line_skip[OF nolf start] IH show ?thesis
      by (simp only: unfold_file ConstantDecl prototypes.simps)
  next
    case (Other l)
    with Cons.prems have wfl: "10 \<notin> set l" "quiet l"
      by simp_all
    from line_skip[OF wfl(1) quiet_line_start[OF wfl(2)]] IH show ?thesis
      by (simp only: unfold_file Other prototypes.simps render_item.simps)
  qed
qed

lemma cap_fdecl_caps [simp]:
  "cap (fdecl_caps sp ws f) ''type'' = ftype f"
  "cap (fdecl_caps sp ws f) ''name'' = fname f"
  "cap (fdecl_caps sp ws f) ''parametersString'' = render_params sp ws (fparams f)"
  by (simp_all add: cap_def fdecl_caps_def)

lemma functionMembers_file:
  assumes ws: "list_all is_space ws" "10 \<notin> set ws" and sp: "sp \<noteq> []" "list_all is_space sp" "10 \<notin> set sp"
    and wf: "list_all wf_item its"
    and depth: "list_all (\<lambda>i. list_all (\<lambda>q. pdepth q \<le> Suc d) (item_params i)) its"
  shows "functionMembers conv (Suc (Suc d)) (render_file sp ws its)
           = map (function_record conv ws) (prototypes its)"
proof -
  have params: "paramMembers conv (Suc (Suc d)) (render_params sp ws (fparams f))
      = map (param_record conv ws) (fparams f)" if "f \<in> set (prototypes its)" for f
  proof -
    from that wf depth have "wf_fdecl f \<and> list_all (\<lambda>q. pdepth q \<le> Suc d) (fparams f)"
      by (induction its rule: prototypes.induct) auto
    then have "list_all wf_param (fparams f)" "list_all (\<lambda>q. pdepth q \<le> Suc (Suc d)) (fparams f)"
      by (auto simp: wf_fdecl_def list_all_iff)
    then show ?thesis
      by (intro paramMembers_rendered[OF ws(1) sp(1,2)])
  qed
  show ?thesis
    using matchAll_file[OF ws sp wf depth, of None]
    by (simp add: functionMembers_def function_record_def newMember_def params)
qed

lemma depth_conv:
  assumes "2 \<le> D" and "list_all (\<lambda>i. list_all (\<lambda>q. pdepth q < D) (item_params i)) its"
  obtains d where "D = Suc (Suc d)"
    and "list_all (\<lambda>i. list_all (\<lambda>q. pdepth q \<le> Suc d) (item_params i)) its"
proof -
  from assms(1) obtain d where D: "D = Suc (Suc d)"
    by (metis add_2_eq_Suc le_Suc_ex)
  with assms(2) have "list_all (\<lambda>i. list_all (\<lambda>q. pdepth q \<le> Suc d) (item_params i)) its"
    by (simp add: list_all_iff less_Suc_eq_le)
  with D show ?thesis by (rule that)
qed

lemma demo_render: "render_file [32] [32] demoItems = str demoText"
  by (simp add: render_file_def render_header_def render_params_def render_param_def demoItems_def demoText_def)

lemma demo_wf: "list_all wf_item demoItems"
  by (simp add: demoItems_def wf_fdecl_def wf_param_def is_ident_def starts_with_def reserved_heads_def
      is_word_def is_digit_def is_tokch_def is_strch_def is_space_def opens_line_def quiet_def)

lemma demo_depth: "list_all (\<lambda>i. list_all (\<lambda>q. pdepth q < 8) (item_params i)) demoItems"
  by (simp add: demoItems_def pdepth_def)

lemma demo_layout:
  "list_all is_space [32]" "10 \<notin> set [32::cunit]" "[32::cunit] \<noteq> []"
  by (simp_all add: is_space_def)

lemma demo_functionMembers:
  "functionMembers (\<lambda>w. w) 8 (str demoText) =
     [\<lparr>mID = Function, sType = str ''int'', sName = str ''f'', sValue = [],
       sParams = [\<lparr>sParamType = str ''int'', sParamName = str ''a'', sDefaultValue = []\<rparr>,
                  \<lparr>sParamType = str ''vector'', sParamName = str ''v'',
                   sDefaultValue = str ''[[1, 2], [3, 4]]''\<rparr>,
                  \<lparr>sParamType = str ''string'', sParamName = str ''s'',
                   sDefaultValue = str ''\"x, y]\"''\<rparr>]\<rparr>]"
  by code_simp

section \<open>Parameters and their default values\<close>





section \<open>Declarations and definitions\<close>



end
